theory Spec2Isabelle
  imports Complex_Main
begin

section \<open>Text\<close>

text \<open>
  A Python \<open>str\<close> is modelled as a \<open>string\<close> whose characters are the code points
  0..255. On that range \<open>str.isspace\<close> holds for TAB..CR, FS..US, SPACE, NEL (0x85) and
  NBSP (0xA0); the regular expression class \<open>\s\<close> matches the same characters.
\<close>

definition isspace :: "char \<Rightarrow> bool" where
  "isspace c =
     (let n = (of_char c :: nat)
      in (9 \<le> n \<and> n \<le> 13) \<or> (28 \<le> n \<and> n \<le> 32) \<or> n = 133 \<or> n = 160)"

definition strip :: "string \<Rightarrow> string" where
  \<comment> \<open>\<open>str.strip()\<close>: leading and trailing whitespace removed.\<close>
  "strip s = rev (dropWhile isspace (rev (dropWhile isspace s)))"

definition lower_char :: "char \<Rightarrow> char" where
  "lower_char c =
     (let n = (of_char c :: nat)
      in if (65 \<le> n \<and> n \<le> 90) \<or> (192 \<le> n \<and> n \<le> 222 \<and> n \<noteq> 215)
         then char_of (n + 32) else c)"

definition lower :: "string \<Rightarrow> string" where
  \<comment> \<open>\<open>str.lower()\<close>.\<close>
  "lower s = map lower_char s"

definition lstrip_hash :: "string \<Rightarrow> string" where
  \<comment> \<open>\<open>keyword.lstrip("#")\<close>: every leading \<open>#\<close> is removed.\<close>
  "lstrip_hash s = dropWhile (\<lambda>c. c = CHR ''#'') s"

section \<open>Errors\<close>

text \<open>
  The exceptions the program can meet, all of them subclasses of \<open>Exception\<close>.
  \<open>UpstreamError\<close> stands for whatever the platform client raises (network, auth).
\<close>

datatype error =
    RuntimeError
  | FileNotFoundError
  | ValueError
  | TypeError
  | AttributeError
  | OverflowError
  | UpstreamError string

section \<open>Credential tokens\<close>

text \<open>
  \<open>parse_ms_tokens\<close> (lines 20-31): the loop threads the set \<open>seen\<close> and the list
  \<open>tokens\<close> through the raw tokens.
\<close>

fun parse_loop :: "string set \<Rightarrow> string list \<Rightarrow> string list \<Rightarrow> string list" where
  "parse_loop seen tokens [] = tokens"
| "parse_loop seen tokens (raw # rest) =
     (let trimmed = strip raw
      in if trimmed = [] \<or> trimmed \<in> seen
         then parse_loop seen tokens rest
         else parse_loop (insert trimmed seen) (tokens @ [trimmed]) rest)"

definition parse_ms_tokens :: "string list \<Rightarrow> string list" where
  "parse_ms_tokens raw_tokens = parse_loop {} [] raw_tokens"

definition is_sep :: "char \<Rightarrow> bool" where
  \<comment> \<open>The character class \<open>[\s,;]\<close> of line 42.\<close>
  "is_sep c = (isspace c \<or> c = CHR '','' \<or> c = CHR '';'')"

text \<open>
  \<open>re.split(r"[\s,;]+", value)\<close>: the pieces between the maximal runs of separators,
  with an empty piece before a leading run and after a trailing one.
\<close>

function re_split :: "string \<Rightarrow> string list" where
  "re_split s =
     (let piece = takeWhile (\<lambda>c. \<not> is_sep c) s;
          rest = dropWhile (\<lambda>c. \<not> is_sep c) s
      in if rest = [] then [piece] else piece # re_split (dropWhile is_sep rest))"
  by pat_completeness auto
termination
proof (relation "measure length")
  show "wf (measure length)" by simp
next
  fix s :: string and piece rest
  assume rest: "rest = dropWhile (\<lambda>c. \<not> is_sep c) s" and ne: "rest \<noteq> []"
  have "length rest \<le> length s"
    unfolding rest by (rule length_dropWhile_le)
  moreover have "is_sep (hd rest)"
    using ne hd_dropWhile [of "\<lambda>c. \<not> is_sep c" s] by (simp add: rest)
  then have "length (dropWhile is_sep rest) < length rest"
    using ne length_dropWhile_le [of is_sep "tl rest"] by (cases rest) auto
  ultimately show "(dropWhile is_sep rest, s) \<in> measure length" by simp
qed

declare re_split.simps [simp del]

definition env_names :: "string list" where
  "env_names = [''ms_token'', ''ms_tokens'', ''MS_TOKEN'', ''MS_TOKENS'']"

text \<open>
  \<open>get_ms_tokens\<close> (lines 34-51). The environment is a map from names to values;
  the loop extends \<open>collected\<close> with the pieces of every channel that is set and
  non-empty.
\<close>

fun collect_loop :: "(string \<rightharpoonup> string) \<Rightarrow> string list \<Rightarrow> string list \<Rightarrow> string list" where
  "collect_loop getenv collected [] = collected"
| "collect_loop getenv collected (env_name # rest) =
     (case getenv env_name of
        None \<Rightarrow> collect_loop getenv collected rest
      | Some v \<Rightarrow>
          if v = [] then collect_loop getenv collected rest
          else collect_loop getenv (collected @ re_split v) rest)"

definition collected :: "(string \<rightharpoonup> string) \<Rightarrow> string list" where
  "collected getenv = collect_loop getenv [] env_names"

definition get_ms_tokens :: "(string \<rightharpoonup> string) \<Rightarrow> error + string list" where
  "get_ms_tokens getenv =
     (let tokens = parse_ms_tokens (collected getenv)
      in if tokens = [] then Inl RuntimeError else Inr tokens)"

definition ensure_ms_tokens :: "(string \<rightharpoonup> string) \<Rightarrow> error + string list" where
  "ensure_ms_tokens getenv = get_ms_tokens getenv"

section \<open>Keywords\<close>

definition header_words :: "string set" where
  "header_words = {''keyword'', ''palabra'', ''hashtag''}"

text \<open>
  \<open>read_keywords\<close> (lines 54-68). The input file is given as the rows that
  \<open>csv.reader\<close> yields, each a list of cells; a blank line is the empty row.
\<close>

fun read_loop :: "string list \<Rightarrow> string list list \<Rightarrow> string list" where
  "read_loop keywords [] = keywords"
| "read_loop keywords (row # rest) =
     (case row of
        [] \<Rightarrow> read_loop keywords rest
      | cell # _ \<Rightarrow>
          (let keyword = strip cell
           in if keyword = [] then read_loop keywords rest
              else if lower keyword \<in> header_words then read_loop keywords rest
              else read_loop (keywords @ [keyword]) rest))"

definition read_keywords :: "string list list \<Rightarrow> string list" where
  "read_keywords rows = read_loop [] rows"

text \<open>
  \<open>read_keywords_safe\<close> (lines 119-125). The file system maps a path to the rows of
  the file there, or to \<open>None\<close> when nothing exists at the path.
\<close>

definition read_keywords_safe :: "(string \<rightharpoonup> string list list) \<Rightarrow> string \<Rightarrow> error + string list" where
  "read_keywords_safe fs path =
     (case fs path of
        None \<Rightarrow> Inl FileNotFoundError
      | Some rows \<Rightarrow>
          (let keywords = read_keywords rows
           in if keywords = [] then Inl RuntimeError else Inr keywords))"

section \<open>Python values\<close>

text \<open>
  The values of the video metadata (decoded JSON). A finite float is the rational number
  it denotes. A dictionary is an association list in insertion order with distinct keys.
\<close>

datatype pyfloat = Finite rat | PosInf | NegInf | NaN

datatype pyval =
    PNone
  | PBool bool
  | PInt int
  | PFloat pyfloat
  | PStr string
  | PList "pyval list"
  | PDict "(string \<times> pyval) list"

type_synonym pydict = "(string \<times> pyval) list"

fun truthy :: "pyval \<Rightarrow> bool" where
  "truthy PNone = False"
| "truthy (PBool b) = b"
| "truthy (PInt n) = (n \<noteq> 0)"
| "truthy (PFloat x) = (x \<noteq> Finite 0)"
| "truthy (PStr s) = (s \<noteq> [])"
| "truthy (PList xs) = (xs \<noteq> [])"
| "truthy (PDict d) = (d \<noteq> [])"

definition py_or :: "pyval \<Rightarrow> pyval \<Rightarrow> pyval" where
  \<comment> \<open>\<open>a or b\<close>\<close>
  "py_or a b = (if truthy a then a else b)"

definition dict_get :: "pydict \<Rightarrow> string \<Rightarrow> pyval \<Rightarrow> pyval" where
  \<comment> \<open>\<open>d.get(key, default)\<close> on a dictionary\<close>
  "dict_get d key dflt = (case map_of d key of None \<Rightarrow> dflt | Some v \<Rightarrow> v)"

definition py_get :: "pyval \<Rightarrow> string \<Rightarrow> pyval \<Rightarrow> error + pyval" where
  \<comment> \<open>\<open>obj.get(key, default)\<close> on any value: only a dictionary has the method\<close>
  "py_get obj key dflt =
     (case obj of PDict d \<Rightarrow> Inr (dict_get d key dflt) | _ \<Rightarrow> Inl AttributeError)"

text \<open>
  \<open>int(x)\<close>. A string is a decimal literal: optional whitespace around an optional sign
  and digits, with single underscores allowed between digits. The whitespace \<open>int\<close>
  skips is TAB..CR, SPACE, NEL and NBSP. A literal of more than 4300 digits is refused
  with \<open>ValueError\<close> (the interpreter's default \<open>int_max_str_digits\<close>, Python 3.11 and
  the security releases before it).
\<close>

definition MAX_STR_DIGITS :: nat where
  "MAX_STR_DIGITS = 4300"

definition isdigit :: "char \<Rightarrow> bool" where
  "isdigit c = (48 \<le> (of_char c :: nat) \<and> (of_char c :: nat) \<le> 57)"

definition int_space :: "char \<Rightarrow> bool" where
  "int_space c =
     (let n = (of_char c :: nat)
      in (9 \<le> n \<and> n \<le> 13) \<or> n = 32 \<or> n = 133 \<or> n = 160)"

fun parse_digits :: "int \<Rightarrow> bool \<Rightarrow> string \<Rightarrow> int option" where
  "parse_digits acc prev_digit [] = (if prev_digit then Some acc else None)"
| "parse_digits acc prev_digit (c # cs) =
     (if isdigit c then parse_digits (acc * 10 + (of_char c - 48)) True cs
      else if c = CHR ''_'' \<and> prev_digit then parse_digits acc False cs
      else None)"

definition str_to_int :: "string \<Rightarrow> int option" where
  "str_to_int s =
     (case rev (dropWhile int_space (rev (dropWhile int_space s))) of
        [] \<Rightarrow> None
      | c # cs \<Rightarrow>
          if MAX_STR_DIGITS < length (filter isdigit (c # cs)) then None
          else if c = CHR ''-'' then map_option uminus (parse_digits 0 False cs)
          else if c = CHR ''+'' then parse_digits 0 False cs
          else parse_digits 0 False (c # cs))"

definition truncate :: "rat \<Rightarrow> int" where
  "truncate q = (if q < 0 then - \<lfloor>- q\<rfloor> else \<lfloor>q\<rfloor>)"

fun py_int :: "pyval \<Rightarrow> error + int" where
  "py_int PNone = Inl TypeError"
| "py_int (PBool b) = Inr (if b then 1 else 0)"
| "py_int (PInt n) = Inr n"
| "py_int (PFloat (Finite q)) = Inr (truncate q)"
| "py_int (PFloat NaN) = Inl ValueError"
| "py_int (PFloat _) = Inl OverflowError"
| "py_int (PStr s) = (case str_to_int s of None \<Rightarrow> Inl ValueError | Some n \<Rightarrow> Inr n)"
| "py_int (PList _) = Inl TypeError"
| "py_int (PDict _) = Inl TypeError"

section \<open>Fetching one keyword\<close>

text \<open>
  A video of the platform client: its metadata dictionary \<open>as_dict\<close> and its attribute
  \<open>url\<close>. The asynchronous generator \<open>hashtag.videos(count=...)\<close> is a lazy sequence,
  finite since the client stops at the count: pulling from it gives the next video, the
  end, or an exception of the client.
\<close>

record video =
  as_dict :: pydict
  url :: pyval

datatype upstream = Exhausted | Yield video upstream | Raise error

type_synonym row = pydict

definition FETCH_COUNT_PER_KEYWORD :: nat where
  "FETCH_COUNT_PER_KEYWORD = 200"

definition bind :: "error + 'a \<Rightarrow> ('a \<Rightarrow> error + 'b) \<Rightarrow> error + 'b" where
  \<comment> \<open>sequencing: an exception of the first step ends the computation\<close>
  "bind m f = (case m of Inl e \<Rightarrow> Inl e | Inr x \<Rightarrow> f x)"

text \<open>
  The body of the loop of \<open>fetch_for_keyword\<close> (lines 84-104) for one video:
  \<open>Inr None\<close> is the \<open>continue\<close> of line 89, \<open>Inr (Some row)\<close> the row of lines 93-104,
  with the fields evaluated in the order of the dictionary display.
\<close>

definition process_video :: "string \<Rightarrow> int \<Rightarrow> video \<Rightarrow> error + row option" where
  "process_video keyword min_likes v =
     (let data = as_dict v;
          stats = py_or (dict_get data ''stats'' PNone) (PDict [])
      in bind (py_get stats ''diggCount'' (PInt 0)) (\<lambda>digg.
         bind (py_int (py_or digg (PInt 0))) (\<lambda>like_count.
           if like_count < min_likes then Inr None
           else
             (let author = py_or (dict_get data ''author'' PNone) (PDict [])
              in bind (py_get stats ''commentCount'' PNone) (\<lambda>comment_count.
                 bind (py_get stats ''shareCount'' PNone) (\<lambda>share_count.
                 bind (py_get stats ''playCount'' PNone) (\<lambda>play_count.
                 bind (py_get author ''uniqueId'' PNone) (\<lambda>author_uniqueId.
                 bind (py_get author ''nickname'' PNone) (\<lambda>author_nickname.
                   Inr (Some
                     [(''keyword'', PStr keyword),
                      (''video_id'', dict_get data ''id'' PNone),
                      (''description'', dict_get data ''desc'' PNone),
                      (''like_count'', PInt like_count),
                      (''comment_count'', comment_count),
                      (''share_count'', share_count),
                      (''play_count'', play_count),
                      (''author_uniqueId'', author_uniqueId),
                      (''author_nickname'', author_nickname),
                      (''url'', url v)]))))))))))"

text \<open>
  The \<open>async for\<close> loop (lines 83-108). The result carries the rows and the state of the
  generator when the loop is left: what has not been pulled.
\<close>

fun fetch_loop ::
  "string \<Rightarrow> int \<Rightarrow> int \<Rightarrow> row list \<Rightarrow> upstream \<Rightarrow> error + (row list \<times> upstream)" where
  "fetch_loop keyword min_likes max_results results Exhausted = Inr (results, Exhausted)"
| "fetch_loop keyword min_likes max_results results (Raise e) = Inl e"
| "fetch_loop keyword min_likes max_results results (Yield v rest) =
     (case process_video keyword min_likes v of
        Inl e \<Rightarrow> Inl e
      | Inr None \<Rightarrow> fetch_loop keyword min_likes max_results results rest
      | Inr (Some row) \<Rightarrow>
          if max_results \<le> int (length (results @ [row]))
          then Inr (results @ [row], rest)
          else fetch_loop keyword min_likes max_results (results @ [row]) rest)"

definition fetch_for_keyword ::
  "(string \<Rightarrow> nat \<Rightarrow> upstream) \<Rightarrow> string \<Rightarrow> int \<Rightarrow> int \<Rightarrow> error + (row list \<times> upstream)" where
  "fetch_for_keyword hashtag_videos keyword min_likes max_results =
     (let normalized = lstrip_hash keyword
      in fetch_loop keyword min_likes max_results []
           (hashtag_videos normalized FETCH_COUNT_PER_KEYWORD))"

section \<open>The keyword loop\<close>

text \<open>
  What the run does to the outside, in order: opening the sessions (tokens, number of
  sessions, settle delay, browser), one call of \<open>fetch_for_keyword\<close> per keyword, and
  writing the output file. The progress messages on the standard output are left out.
\<close>

datatype event =
    CreateSessions "string list" nat nat string
  | FetchForKeyword string
  | WriteRows string "pyval list list"

text \<open>
  The platform client answers the \<open>i\<close>-th request of the run for a hashtag name and a
  count with a lazy sequence. The loop of lines 181-199 threads the aggregate and the
  events; the \<open>except Exception\<close> of line 192 is the \<open>Inl\<close> branch.
\<close>

fun keyword_loop ::
  "(nat \<Rightarrow> string \<Rightarrow> nat \<Rightarrow> upstream) \<Rightarrow> int \<Rightarrow> int \<Rightarrow> nat \<Rightarrow> row list \<Rightarrow> event list \<Rightarrow>
   string list \<Rightarrow> row list \<times> event list" where
  "keyword_loop api min_likes max_per_keyword i aggregated events [] = (aggregated, events)"
| "keyword_loop api min_likes max_per_keyword i aggregated events (keyword # rest) =
     (case fetch_for_keyword (api i) keyword min_likes max_per_keyword of
        Inl exc \<Rightarrow>
          keyword_loop api min_likes max_per_keyword (Suc i) aggregated
            (events @ [FetchForKeyword keyword]) rest
      | Inr (rows, _) \<Rightarrow>
          keyword_loop api min_likes max_per_keyword (Suc i) (aggregated @ rows)
            (events @ [FetchForKeyword keyword]) rest)"

section \<open>Writing the result\<close>

definition default_fieldnames :: "string list" where
  "default_fieldnames =
     [''keyword'', ''video_id'', ''description'', ''like_count'', ''comment_count'',
      ''share_count'', ''play_count'', ''author_uniqueId'', ''author_nickname'', ''url'']"

text \<open>
  \<open>csv.DictWriter\<close> with its defaults: \<open>writerow\<close> raises \<open>ValueError\<close> for a row with a
  key outside the field names and fills a missing field with the empty string. The file
  is the list of the rows handed to the underlying writer, the header first.
\<close>

definition dict_to_list :: "string list \<Rightarrow> row \<Rightarrow> error + pyval list" where
  "dict_to_list fieldnames r =
     (if \<exists>k \<in> set (map fst r). k \<notin> set fieldnames then Inl ValueError
      else Inr (map (\<lambda>k. dict_get r k (PStr [])) fieldnames))"

fun write_loop ::
  "string list \<Rightarrow> pyval list list \<Rightarrow> row list \<Rightarrow> pyval list list \<times> error option" where
  "write_loop fieldnames file [] = (file, None)"
| "write_loop fieldnames file (r # rest) =
     (case dict_to_list fieldnames r of
        Inl e \<Rightarrow> (file, Some e)
      | Inr cells \<Rightarrow> write_loop fieldnames (file @ [cells]) rest)"

text \<open>
  \<open>write_rows\<close> (lines 128-154): the file that is written, and the count that is
  returned or the exception that is raised.
\<close>

definition write_rows :: "row list \<Rightarrow> pyval list list \<times> (error + nat)" where
  "write_rows rows_list =
     (let fieldnames = (if rows_list \<noteq> [] then map fst (hd rows_list) else default_fieldnames);
          (file, failure) = write_loop fieldnames [map PStr fieldnames] rows_list
      in case failure of
           Some e \<Rightarrow> (file, Inl e)
         | None \<Rightarrow> (file, Inr (length rows_list)))"

section \<open>The run\<close>

record args =
  input_path :: string
  output_path :: string
  min_likes :: int
  max_per_keyword :: int

text \<open>
  The outside of a run: the environment variables, the files that exist (as parsed
  rows), whether opening the sessions for a list of tokens fails, and the platform
  client's answers.
\<close>

record world =
  environ :: "string \<rightharpoonup> string"
  files :: "string \<rightharpoonup> string list list"
  create_sessions :: "string list \<Rightarrow> nat \<Rightarrow> error option"
  videos :: "nat \<Rightarrow> string \<Rightarrow> nat \<Rightarrow> upstream"

definition browser :: "(string \<rightharpoonup> string) \<Rightarrow> string" where
  \<comment> \<open>\<open>os.getenv("TIKTOK_BROWSER", "chromium")\<close>\<close>
  "browser env = (case env ''TIKTOK_BROWSER'' of None \<Rightarrow> ''chromium'' | Some b \<Rightarrow> b)"

text \<open>
  \<open>main_async\<close> (lines 157-202): the events of the run, and the number of rows written
  or the exception that ends the run.
\<close>

definition main_async :: "world \<Rightarrow> args \<Rightarrow> event list \<times> (error + nat)" where
  "main_async w a =
     (case ensure_ms_tokens (environ w) of
        Inl e \<Rightarrow> ([], Inl e)
      | Inr ms_tokens \<Rightarrow>
     (case read_keywords_safe (files w) (input_path a) of
        Inl e \<Rightarrow> ([], Inl e)
      | Inr keywords \<Rightarrow>
     (let opening = CreateSessions ms_tokens (length ms_tokens) 3 (browser (environ w))
      in case create_sessions w ms_tokens (length ms_tokens) of
        Some e \<Rightarrow> ([opening], Inl e)
      | None \<Rightarrow>
          (let (aggregated, events) =
                 keyword_loop (videos w) (min_likes a) (max_per_keyword a) 0 []
                   [opening] keywords;
               (file, total) = write_rows aggregated
           in (events @ [WriteRows (output_path a) file], total)))))"

section \<open>Notions of the specification\<close>

text \<open>
  The words of the specification that the claims use, each as an executable definition
  to compare the program with.
\<close>

subsection \<open>Tokens and keywords\<close>

definition first_occurrences :: "'a list \<Rightarrow> 'a list" where
  \<comment> \<open>Each element once, at the place of its first occurrence.\<close>
  "first_occurrences ys = rev (remdups (rev ys))"

text \<open>
  A credential configuration has a token when one of its channels holds a character that
  is not a separator. \<open>channel_pieces\<close> is what one channel adds to the raw tokens.
\<close>

definition channel_pieces :: "(string \<rightharpoonup> string) \<Rightarrow> string \<Rightarrow> string list" where
  "channel_pieces env name =
     (case env name of None \<Rightarrow> [] | Some v \<Rightarrow> if v = [] then [] else re_split v)"

definition has_token :: "(string \<rightharpoonup> string) \<Rightarrow> bool" where
  "has_token env =
     (\<exists>name \<in> set env_names.
        case env name of None \<Rightarrow> False | Some v \<Rightarrow> \<exists>c \<in> set v. \<not> is_sep c)"

text \<open>
  The trimmed first cells of the rows that have a cell, and the match of a keyword with a
  header word up to the case of its ASCII letters.
\<close>

definition first_cells :: "string list list \<Rightarrow> string list" where
  "first_cells rows = map (\<lambda>row. strip (hd row)) (filter (\<lambda>row. row \<noteq> []) rows)"

definition same_letter :: "char \<Rightarrow> char \<Rightarrow> bool" where
  "same_letter a b =
     (a = b \<or>
      (let m = (of_char a :: nat); n = (of_char b :: nat)
       in (65 \<le> m \<and> m \<le> 90 \<and> n = m + 32) \<or> (65 \<le> n \<and> n \<le> 90 \<and> m = n + 32)))"

definition matches_header :: "string \<Rightarrow> bool" where
  "matches_header k = (\<exists>w \<in> header_words. list_all2 same_letter k w)"

definition ascii_lowercase :: "char \<Rightarrow> bool" where
  "ascii_lowercase b = (97 \<le> (of_char b :: nat) \<and> (of_char b :: nat) \<le> 122)"

subsection \<open>Fetch results\<close>

definition rows_of :: "error + (row list \<times> upstream) \<Rightarrow> row list" where
  \<comment> \<open>What a call of \<open>fetch_for_keyword\<close> hands to its caller: nothing when it raises.\<close>
  "rows_of result = (case result of Inl e \<Rightarrow> [] | Inr (rows, rest) \<Rightarrow> rows)"

definition contributions ::
  "(nat \<Rightarrow> string \<Rightarrow> nat \<Rightarrow> upstream) \<Rightarrow> int \<Rightarrow> int \<Rightarrow> nat \<Rightarrow> string list \<Rightarrow> row list" where
  \<comment> \<open>The rows of the keywords of a list, in order, the first request being number \<open>i\<close>.\<close>
  "contributions api t cap i kws =
     concat (map (\<lambda>(j, k). rows_of (fetch_for_keyword (api j) k t cap))
       (enumerate i kws))"

definition has_likes :: "int \<Rightarrow> row \<Rightarrow> bool" where
  \<comment> \<open>The like count of the record is an integer that meets the threshold.\<close>
  "has_likes t r = (case map_of r ''like_count'' of Some (PInt n) \<Rightarrow> t \<le> n | _ \<Rightarrow> False)"

definition record_keys :: "row \<Rightarrow> bool" where
  \<comment> \<open>The record has exactly the ten declared fields, in the declared order.\<close>
  "record_keys r = (map fst r = default_fieldnames)"

text \<open>
  The videos an upstream sequence yields when it is pulled to its end, and whether it
  ends by raising.
\<close>

fun candidates :: "upstream \<Rightarrow> video list" where
  "candidates Exhausted = []"
| "candidates (Raise e) = []"
| "candidates (Yield v rest) = v # candidates rest"

fun fails :: "upstream \<Rightarrow> bool" where
  "fails Exhausted = False"
| "fails (Raise e) = True"
| "fails (Yield v rest) = fails rest"

definition accepted :: "string \<Rightarrow> int \<Rightarrow> video list \<Rightarrow> row list" where
  \<comment> \<open>The records of the videos of a list that meet the threshold, in order.\<close>
  "accepted kw t vs =
     concat (map (\<lambda>v. case process_video kw t v of Inr (Some r) \<Rightarrow> [r] | _ \<Rightarrow> []) vs)"

definition clean :: "string \<Rightarrow> int \<Rightarrow> upstream \<Rightarrow> bool" where
  \<comment> \<open>Neither the sequence nor the processing of any of its videos raises.\<close>
  "clean kw t u = (\<not> fails u \<and> (\<forall>v \<in> set (candidates u). \<not> isl (process_video kw t v)))"

subsection \<open>Metadata that raises\<close>

definition is_dict :: "pyval \<Rightarrow> bool" where
  "is_dict x = (case x of PDict d \<Rightarrow> True | _ \<Rightarrow> False)"

definition stats_dict :: "video \<Rightarrow> pydict" where
  "stats_dict v = (case dict_get (as_dict v) ''stats'' PNone of PDict d \<Rightarrow> d | _ \<Rightarrow> [])"

definition raw_likes :: "video \<Rightarrow> pyval" where
  "raw_likes v = dict_get (stats_dict v) ''diggCount'' PNone"

definition likes :: "video \<Rightarrow> int" where
  \<comment> \<open>The like count of a video: zero when it is absent or falsy.\<close>
  "likes v =
     (if truthy (raw_likes v)
      then (case py_int (raw_likes v) of Inr n \<Rightarrow> n | Inl e \<Rightarrow> 0) else 0)"

definition bad_dict :: "pyval \<Rightarrow> bool" where
  \<comment> \<open>A truthy value that is not a dictionary: \<open>x or {}\<close> keeps it, and it has no \<open>get\<close>.\<close>
  "bad_dict x = (truthy x \<and> \<not> is_dict x)"

definition item_raises :: "int \<Rightarrow> video \<Rightarrow> bool" where
  \<comment> \<open>The statistics are a truthy non-dictionary, or the like count is truthy and \<open>int\<close>
      refuses it, or the video meets the threshold and its author is a truthy
      non-dictionary.\<close>
  "item_raises t v =
     (bad_dict (dict_get (as_dict v) ''stats'' PNone) \<or>
      (truthy (raw_likes v) \<and> isl (py_int (raw_likes v))) \<or>
      (t \<le> likes v \<and> bad_dict (dict_get (as_dict v) ''author'' PNone)))"

subsection \<open>Example data\<close>

text \<open>
  The example of the specification: a threshold of 1000 and a cap of 2; the hashtag
  \<open>cats\<close> yields candidates with 500, 1500, 2000 and 100 likes, every other hashtag
  raises.
\<close>

definition example_video :: "int \<Rightarrow> video" where
  "example_video n =
     \<lparr>as_dict = [(''id'', PStr ''7301''), (''desc'', PStr ''clip''),
        (''stats'', PDict [(''diggCount'', PInt n), (''playCount'', PInt 9)]),
        (''author'', PDict [(''uniqueId'', PStr ''ana'')])],
      url = PNone\<rparr>"

definition example_row :: "string \<Rightarrow> int \<Rightarrow> row" where
  "example_row kw n =
     [(''keyword'', PStr kw), (''video_id'', PStr ''7301''), (''description'', PStr ''clip''),
      (''like_count'', PInt n), (''comment_count'', PNone), (''share_count'', PNone),
      (''play_count'', PInt 9), (''author_uniqueId'', PStr ''ana''),
      (''author_nickname'', PNone), (''url'', PNone)]"

definition example_cats :: upstream where
  "example_cats =
     Yield (example_video 500) (Yield (example_video 1500)
       (Yield (example_video 2000) (Yield (example_video 100) Exhausted)))"

definition example_api :: "nat \<Rightarrow> string \<Rightarrow> nat \<Rightarrow> upstream" where
  "example_api i name count =
     (if name = ''cats'' then example_cats else Raise (UpstreamError ''unavailable''))"

definition example_args :: args where
  "example_args =
     \<lparr>input_path = ''in.csv'', output_path = ''out.csv'', min_likes = 1000, max_per_keyword = 2\<rparr>"

definition example_world :: "(string \<times> string) list \<Rightarrow> (string \<times> string list list) list \<Rightarrow> world" where
  "example_world env fs =
     \<lparr>environ = map_of env, files = map_of fs, create_sessions = (\<lambda>ts n. None),
      videos = example_api\<rparr>"

section \<open>Properties of the text operations\<close>

lemma dropWhile_keeps_last:
  "xs \<noteq> [] \<Longrightarrow> \<not> P (last xs) \<Longrightarrow> dropWhile P xs \<noteq> [] \<and> last (dropWhile P xs) = last xs"
  by (induction xs) (auto split: if_splits)

lemma dropWhile_fixed: "xs = [] \<or> \<not> P (hd xs) \<Longrightarrow> dropWhile P xs = xs"
  by (cases xs) auto

lemma strip_ends:
  "strip s = [] \<or> (\<not> isspace (hd (strip s)) \<and> \<not> isspace (last (strip s)))"
proof (cases "dropWhile isspace s = []")
  case True
  show ?thesis unfolding strip_def True by simp
next
  case False
  define u where "u = dropWhile isspace s"
  have u: "u \<noteq> []" "\<not> isspace (hd u)"
    using False hd_dropWhile [of isspace s] by (simp_all add: u_def)
  define w where "w = dropWhile isspace (rev u)"
  have "rev u \<noteq> []" "\<not> isspace (last (rev u))"
    using u by (simp_all add: last_rev)
  then have w: "w \<noteq> []" "last w = hd u"
    using dropWhile_keeps_last [of "rev u" isspace] u by (simp_all add: w_def last_rev)
  have "\<not> isspace (hd w)"
    using w(1) hd_dropWhile [of isspace "rev u"] by (simp add: w_def)
  moreover have "strip s = rev w"
    by (simp add: strip_def u_def w_def)
  ultimately show ?thesis
    using w u by (simp add: hd_rev last_rev)
qed

lemma strip_fixed:
  assumes "s = [] \<or> (\<not> isspace (hd s) \<and> \<not> isspace (last s))"
  shows "strip s = s"
proof (cases "s = []")
  case True
  then show ?thesis by (simp add: strip_def)
next
  case False
  with assms have h: "\<not> isspace (hd s)" "\<not> isspace (last s)" by simp_all
  have "dropWhile isspace s = s"
    using h(1) by (simp add: dropWhile_fixed)
  moreover have "dropWhile isspace (rev s) = rev s"
    using h(2) False by (simp add: dropWhile_fixed hd_rev)
  ultimately show ?thesis by (simp add: strip_def)
qed

lemma strip_idem: "strip (strip s) = strip s"
  using strip_ends [of s] by (rule strip_fixed)

section \<open>Properties of token parsing\<close>

lemma first_occurrences_Nil: "first_occurrences [] = []"
  by (simp add: first_occurrences_def)

lemma remdups_snoc: "remdups (zs @ [y]) = filter (\<lambda>z. z \<noteq> y) (remdups zs) @ [y]"
  by (induction zs) auto

lemma first_occurrences_Cons:
  "first_occurrences (y # ys) = y # filter (\<lambda>z. z \<noteq> y) (first_occurrences ys)"
  by (simp add: first_occurrences_def remdups_snoc rev_filter)

lemma distinct_first_occurrences: "distinct (first_occurrences ys)"
  by (simp add: first_occurrences_def)

lemma set_first_occurrences: "set (first_occurrences ys) = set ys"
  by (simp add: first_occurrences_def)

lemma parse_loop_acc: "parse_loop seen tokens xs = tokens @ parse_loop seen [] xs"
proof (induction xs arbitrary: seen tokens)
  case Nil
  show ?case by simp
next
  case (Cons raw rest)
  show ?case
  proof (cases "strip raw = [] \<or> strip raw \<in> seen")
    case True
    then show ?thesis using Cons [of seen tokens] by simp
  next
    case False
    then show ?thesis
      using Cons [of "insert (strip raw) seen" "tokens @ [strip raw]"]
        Cons [of "insert (strip raw) seen" "[strip raw]"]
      by (simp add: Let_def)
  qed
qed

lemma parse_loop_filter:
  "parse_loop seen [] xs =
     filter (\<lambda>y. y \<noteq> [] \<and> y \<notin> seen) (first_occurrences (map strip xs))"
proof (induction xs arbitrary: seen)
  case Nil
  show ?case by (simp add: first_occurrences_Nil)
next
  case (Cons raw rest)
  show ?case
  proof (cases "strip raw = [] \<or> strip raw \<in> seen")
    case True
    then have "parse_loop seen [] (raw # rest) = parse_loop seen [] rest" by simp
    also have "\<dots> = filter (\<lambda>y. y \<noteq> [] \<and> y \<notin> seen) (first_occurrences (map strip rest))"
      by (rule Cons)
    also have "\<dots> = filter (\<lambda>y. y \<noteq> [] \<and> y \<notin> seen)
        (first_occurrences (map strip (raw # rest)))"
      using True by (auto simp: first_occurrences_Cons intro!: filter_cong)
    finally show ?thesis .
  next
    case False
    then have "parse_loop seen [] (raw # rest) =
        strip raw # parse_loop (insert (strip raw) seen) [] rest"
      using parse_loop_acc [of "insert (strip raw) seen" "[strip raw]" rest]
      by (simp add: Let_def)
    also have "parse_loop (insert (strip raw) seen) [] rest =
        filter (\<lambda>y. y \<noteq> [] \<and> y \<notin> insert (strip raw) seen)
          (first_occurrences (map strip rest))"
      by (rule Cons)
    finally show ?thesis
      using False by (auto simp: first_occurrences_Cons intro!: filter_cong)
  qed
qed

lemma parse_ms_tokens_eq:
  "parse_ms_tokens xs = filter (\<lambda>y. y \<noteq> []) (first_occurrences (map strip xs))"
  by (simp add: parse_ms_tokens_def parse_loop_filter)

lemma parse_ms_tokens_distinct: "distinct (parse_ms_tokens xs)"
  by (simp add: parse_ms_tokens_eq distinct_first_occurrences)

lemma parse_ms_tokens_set:
  "set (parse_ms_tokens xs) = {t. t \<noteq> [] \<and> t \<in> strip ` set xs}"
  by (auto simp: parse_ms_tokens_eq set_first_occurrences)

lemma parse_ms_tokens_trimmed:
  "t \<in> set (parse_ms_tokens xs) \<Longrightarrow> t \<noteq> [] \<and> strip t = t"
  by (auto simp: parse_ms_tokens_set strip_idem)

lemma first_occurrences_distinct: "distinct ys \<Longrightarrow> first_occurrences ys = ys"
  by (simp add: first_occurrences_def distinct_remdups_id)

lemma parse_ms_tokens_fixed:
  assumes "distinct ts" and "\<forall>t \<in> set ts. t \<noteq> [] \<and> strip t = t"
  shows "parse_ms_tokens ts = ts"
proof -
  have "map strip ts = ts"
    using assms(2) by (simp add: map_idI)
  then show ?thesis
    using assms by (simp add: parse_ms_tokens_eq first_occurrences_distinct)
qed

section \<open>Properties of token and keyword reading\<close>

lemma first_occurrences_filter:
  "first_occurrences (filter P ys) = filter P (first_occurrences ys)"
  by (simp add: first_occurrences_def rev_filter remdups_filter)

lemma parse_ms_tokens_empty_iff:
  "parse_ms_tokens xs = [] \<longleftrightarrow> (\<forall>x \<in> set xs. strip x = [])"
proof -
  have "parse_ms_tokens xs = [] \<longleftrightarrow> set (parse_ms_tokens xs) = {}" by simp
  also have "\<dots> \<longleftrightarrow> (\<forall>x \<in> set xs. strip x = [])"
    unfolding parse_ms_tokens_set by auto
  finally show ?thesis .
qed

lemma re_split_pieces: "t \<in> set (re_split s) \<Longrightarrow> c \<in> set t \<Longrightarrow> \<not> is_sep c"
proof (induction s arbitrary: t rule: re_split.induct)
  case (1 s)
  show ?case
  proof (cases "dropWhile (\<lambda>c. \<not> is_sep c) s = []")
    case True
    then have "t = takeWhile (\<lambda>c. \<not> is_sep c) s"
      using "1.prems"(1) by (simp add: re_split.simps [of s])
    then show ?thesis using "1.prems"(2) by (auto dest: set_takeWhileD)
  next
    case False
    then have "t = takeWhile (\<lambda>c. \<not> is_sep c) s \<or>
        t \<in> set (re_split (dropWhile is_sep (dropWhile (\<lambda>c. \<not> is_sep c) s)))"
      using "1.prems"(1) by (auto simp add: re_split.simps [of s] Let_def split: if_splits)
    then show ?thesis
    proof
      assume "t = takeWhile (\<lambda>c. \<not> is_sep c) s"
      then show ?thesis using "1.prems"(2) by (auto dest: set_takeWhileD)
    next
      assume "t \<in> set (re_split (dropWhile is_sep (dropWhile (\<lambda>c. \<not> is_sep c) s)))"
      then show ?thesis
        using "1.IH" [OF refl refl False] "1.prems"(2) by blast
    qed
  qed
qed

lemma read_loop_acc: "read_loop acc rows = acc @ read_loop [] rows"
proof (induction rows arbitrary: acc)
  case Nil show ?case by simp
next
  case (Cons row rest)
  show ?case
  proof (cases row)
    case Nil
    then show ?thesis using Cons [of acc] by simp
  next
    case (Cons cell cells)
    then show ?thesis
      using Cons.IH [of acc] Cons.IH [of "acc @ [strip cell]"] Cons.IH [of "[strip cell]"]
      by (simp add: Let_def)
  qed
qed

lemma read_keywords_eq:
  "read_keywords rows =
     filter (\<lambda>k. k \<noteq> [] \<and> lower k \<notin> header_words) (first_cells rows)"
proof (induction rows)
  case Nil
  show ?case by (simp add: read_keywords_def first_cells_def)
next
  case (Cons row rest)
  show ?case
  proof (cases row)
    case Nil
    then show ?thesis using Cons by (simp add: read_keywords_def first_cells_def)
  next
    case (Cons cell cells)
    then show ?thesis
      using Cons.IH read_loop_acc [of "[strip cell]" rest]
      by (simp add: read_keywords_def first_cells_def Let_def)
  qed
qed

lemma lower_char_eq_iff:
  assumes "ascii_lowercase b"
  shows "lower_char a = b \<longleftrightarrow> same_letter a b"
proof -
  define m where "m = (of_char a :: nat)"
  define n where "n = (of_char b :: nat)"
  have n: "97 \<le> n" "n \<le> 122" using assms by (simp_all add: ascii_lowercase_def n_def)
  have m: "m < 256" by (simp add: m_def)
  have ab: "a = b \<longleftrightarrow> m = n" by (simp add: m_def n_def)
  have up: "char_of (m + 32) = b \<longleftrightarrow> (m + 32) mod 256 = n"
    by (simp add: char_of_eq_iff take_bit_eq_mod n_def)
  show ?thesis
  proof (cases "(65 \<le> m \<and> m \<le> 90) \<or> (192 \<le> m \<and> m \<le> 222 \<and> m \<noteq> 215)")
    case True
    then have "lower_char a = char_of (m + 32)"
      by (simp add: lower_char_def m_def)
    moreover have "(m + 32) mod 256 = m + 32"
      using True by auto
    ultimately have "lower_char a = b \<longleftrightarrow> m + 32 = n" using up by simp
    also have "\<dots> \<longleftrightarrow> (65 \<le> m \<and> m \<le> 90 \<and> n = m + 32)"
      using True n by arith
    also have "\<dots> \<longleftrightarrow> same_letter a b"
      unfolding same_letter_def Let_def ab m_def [symmetric] n_def [symmetric]
      using True n by arith
    finally show ?thesis .
  next
    case False
    then have "lower_char a = a"
      by (auto simp add: lower_char_def m_def Let_def)
    then have "lower_char a = b \<longleftrightarrow> m = n" using ab by simp
    also have "\<dots> \<longleftrightarrow> same_letter a b"
      unfolding same_letter_def Let_def ab m_def [symmetric] n_def [symmetric]
      using False n by arith
    finally show ?thesis .
  qed
qed

lemma lower_eq_iff:
  "\<forall>b \<in> set w. ascii_lowercase b \<Longrightarrow> lower k = w \<longleftrightarrow> list_all2 same_letter k w"
proof (induction k arbitrary: w)
  case Nil
  show ?case by (auto simp: lower_def)
next
  case (Cons a k)
  show ?case
  proof (cases w)
    case Nil
    then show ?thesis by (simp add: lower_def)
  next
    case (Cons b w')
    then have "ascii_lowercase b" "\<forall>b \<in> set w'. ascii_lowercase b"
      using Cons.prems by simp_all
    then show ?thesis
      using Cons.IH [of w'] lower_char_eq_iff [of b a] Cons by (simp add: lower_def)
  qed
qed

lemma header_words_lowercase: "w \<in> header_words \<Longrightarrow> \<forall>b \<in> set w. ascii_lowercase b"
  unfolding header_words_def by (elim insertE emptyE) (simp_all add: ascii_lowercase_def)

lemma matches_header_iff: "lower k \<in> header_words \<longleftrightarrow> matches_header k"
proof
  assume "lower k \<in> header_words"
  then have "list_all2 same_letter k (lower k)"
    using lower_eq_iff [OF header_words_lowercase, of "lower k" k] by simp
  then show "matches_header k"
    using \<open>lower k \<in> header_words\<close> unfolding matches_header_def by (rule_tac bexI)
next
  assume "matches_header k"
  then obtain w where w: "w \<in> header_words" "list_all2 same_letter k w"
    unfolding matches_header_def by (elim bexE)
  then have "lower k = w"
    using lower_eq_iff [OF header_words_lowercase, of w k] by simp
  then show "lower k \<in> header_words" using w(1) by simp
qed

section \<open>Properties of the credential channels\<close>

lemma collect_loop_eq:
  "collect_loop env acc names = acc @ concat (map (channel_pieces env) names)"
proof (induction names arbitrary: acc)
  case Nil
  show ?case by simp
next
  case (Cons n ns)
  show ?case
    using Cons [of acc] Cons [of "acc @ re_split (the (env n))"]
    by (auto simp: channel_pieces_def split: option.splits)
qed

lemma collected_eq: "collected env = concat (map (channel_pieces env) env_names)"
  by (simp add: collected_def collect_loop_eq)

lemma concat_re_split: "concat (re_split s) = filter (\<lambda>c. \<not> is_sep c) s"
proof (induction s rule: re_split.induct)
  case (1 s)
  define piece where "piece = takeWhile (\<lambda>c. \<not> is_sep c) s"
  define rest where "rest = dropWhile (\<lambda>c. \<not> is_sep c) s"
  have s: "s = piece @ rest" by (simp add: piece_def rest_def)
  have fp: "filter (\<lambda>c. \<not> is_sep c) piece = piece"
    unfolding piece_def by (auto simp: filter_id_conv dest: set_takeWhileD)
  show ?case
  proof (cases "rest = []")
    case True
    then have "re_split s = [piece]"
      by (simp add: re_split.simps [of s] piece_def rest_def)
    then show ?thesis using s True fp by simp
  next
    case False
    then have rs: "re_split s = piece # re_split (dropWhile is_sep rest)"
      by (auto simp add: re_split.simps [of s] piece_def rest_def Let_def)
    have ih: "concat (re_split (dropWhile is_sep rest)) =
        filter (\<lambda>c. \<not> is_sep c) (dropWhile is_sep rest)"
      using "1.IH" [OF piece_def rest_def False] .
    have "filter (\<lambda>c. \<not> is_sep c) rest =
        filter (\<lambda>c. \<not> is_sep c) (takeWhile is_sep rest @ dropWhile is_sep rest)"
      by simp
    also have "\<dots> = filter (\<lambda>c. \<not> is_sep c) (dropWhile is_sep rest)"
      unfolding filter_append by (auto simp: filter_empty_conv dest: set_takeWhileD)
    finally have fr: "filter (\<lambda>c. \<not> is_sep c) rest =
        filter (\<lambda>c. \<not> is_sep c) (dropWhile is_sep rest)" .
    have "concat (re_split s) = piece @ filter (\<lambda>c. \<not> is_sep c) rest"
      using rs ih fr by simp
    also have "\<dots> = filter (\<lambda>c. \<not> is_sep c) s"
    proof -
      have "filter (\<lambda>c. \<not> is_sep c) s = filter (\<lambda>c. \<not> is_sep c) (piece @ rest)"
        using s by simp
      then show ?thesis using fp by simp
    qed
    finally show ?thesis .
  qed
qed

lemma piece_strip: "t \<in> set (re_split s) \<Longrightarrow> strip t = t"
proof (rule strip_fixed)
  assume t: "t \<in> set (re_split s)"
  have "\<forall>c \<in> set t. \<not> isspace c"
    using re_split_pieces [OF t] by (auto simp: is_sep_def)
  then show "t = [] \<or> (\<not> isspace (hd t) \<and> \<not> isspace (last t))"
    by (cases "t = []") simp_all
qed

lemma channel_piece_strip: "t \<in> set (channel_pieces env name) \<Longrightarrow> strip t = t"
  by (auto simp: channel_pieces_def piece_strip split: option.splits if_splits)

lemma collected_strip: "t \<in> set (collected env) \<Longrightarrow> strip t = t"
  by (auto simp: collected_eq channel_piece_strip)

lemma re_split_token: "(\<exists>t \<in> set (re_split s). t \<noteq> []) \<longleftrightarrow> (\<exists>c \<in> set s. \<not> is_sep c)"
proof -
  have "(\<exists>t \<in> set (re_split s). t \<noteq> []) \<longleftrightarrow> concat (re_split s) \<noteq> []"
    by auto
  also have "\<dots> \<longleftrightarrow> (\<exists>c \<in> set s. \<not> is_sep c)"
    by (simp add: concat_re_split filter_empty_conv)
  finally show ?thesis .
qed

lemma channel_token:
  "(\<exists>t \<in> set (channel_pieces env name). t \<noteq> []) \<longleftrightarrow>
   (case env name of None \<Rightarrow> False | Some v \<Rightarrow> \<exists>c \<in> set v. \<not> is_sep c)"
proof (cases "env name")
  case None
  then show ?thesis by (simp add: channel_pieces_def)
next
  case (Some v)
  show ?thesis
  proof (cases "v = []")
    case True
    then show ?thesis using Some by (simp add: channel_pieces_def)
  next
    case False
    then show ?thesis using Some re_split_token [of v] by (simp add: channel_pieces_def)
  qed
qed

lemma has_token_iff: "has_token env \<longleftrightarrow> (\<exists>t \<in> set (collected env). strip t \<noteq> [])"
proof -
  have "(\<exists>t \<in> set (collected env). strip t \<noteq> []) \<longleftrightarrow> (\<exists>t \<in> set (collected env). t \<noteq> [])"
    using collected_strip by (metis)
  also have "\<dots> \<longleftrightarrow> (\<exists>name \<in> set env_names. \<exists>t \<in> set (channel_pieces env name). t \<noteq> [])"
    by (auto simp: collected_eq)
  also have "\<dots> \<longleftrightarrow> has_token env"
    unfolding has_token_def channel_token ..
  finally show ?thesis ..
qed

lemma keyword_loop_events:
  "snd (keyword_loop api ml cap i agg evs kws) = evs @ map FetchForKeyword kws"
proof (induction kws arbitrary: i agg evs)
  case Nil
  show ?case by simp
next
  case (Cons k ks)
  show ?case
    by (cases "fetch_for_keyword (api i) k ml cap") (auto simp: Cons)
qed


lemma parse_ms_tokens_first:
  "parse_ms_tokens ys = first_occurrences (filter (\<lambda>t. t \<noteq> []) (map strip ys))"
  by (simp add: parse_ms_tokens_eq first_occurrences_filter)

lemma parse_ms_tokens_props:
  "distinct (parse_ms_tokens ys) \<and> (\<forall>t \<in> set (parse_ms_tokens ys). t \<noteq> [] \<and> strip t = t)"
proof
  show "distinct (parse_ms_tokens ys)" by (rule parse_ms_tokens_distinct)
  show "\<forall>t \<in> set (parse_ms_tokens ys). t \<noteq> [] \<and> strip t = t"
    by (rule ballI) (rule parse_ms_tokens_trimmed)
qed

lemma get_ms_tokens_cases:
  "get_ms_tokens env =
     (if has_token env then Inr (parse_ms_tokens (collected env)) else Inl RuntimeError)"
  by (simp add: get_ms_tokens_def has_token_iff parse_ms_tokens_empty_iff)

section \<open>Properties of fetching\<close>

lemma process_video_row:
  assumes "process_video kw t v = Inr (Some r)"
  shows "has_likes t r \<and> record_keys r \<and> map_of r ''keyword'' = Some (PStr kw)"
  using assms
  unfolding process_video_def bind_def Let_def has_likes_def record_keys_def default_fieldnames_def
  by (auto split: sum.splits if_splits)

lemma fetch_loop_inv:
  assumes "fetch_loop kw t cap results u = Inr (rows, rest)"
    and "\<forall>r \<in> set results. P r"
    and "\<And>v r. process_video kw t v = Inr (Some r) \<Longrightarrow> P r"
  shows "\<forall>r \<in> set rows. P r"
  using assms(1,2)
proof (induction u arbitrary: results)
  case Exhausted
  then show ?case by simp
next
  case (Raise e)
  then show ?case by simp
next
  case (Yield v u)
  show ?case
  proof (cases "process_video kw t v")
    case (Inl e)
    then show ?thesis using Yield.prems by simp
  next
    case (Inr out)
    show ?thesis
    proof (cases out)
      case None
      then show ?thesis using Inr Yield by simp
    next
      case (Some r)
      then have pr: "P r" using Inr assms(3) by simp
      show ?thesis
      proof (cases "cap \<le> int (length (results @ [r]))")
        case True
        then have "rows = results @ [r]" using Inr Some Yield.prems(1) by simp
        then show ?thesis using pr Yield.prems(2) by simp
      next
        case False
        then have "fetch_loop kw t cap (results @ [r]) u = Inr (rows, rest)"
          using Inr Some Yield.prems(1) by simp
        moreover have "\<forall>x \<in> set (results @ [r]). P x" using pr Yield.prems(2) by simp
        ultimately show ?thesis by (rule Yield.IH)
      qed
    qed
  qed
qed

lemma rows_of_fetch:
  assumes "\<And>v r. process_video kw t v = Inr (Some r) \<Longrightarrow> P r"
  shows "\<forall>r \<in> set (rows_of (fetch_for_keyword hv kw t cap)). P r"
proof (cases "fetch_for_keyword hv kw t cap")
  case (Inl e)
  then show ?thesis by (simp add: rows_of_def)
next
  case (Inr res)
  obtain rows rest where res: "res = (rows, rest)" by (cases res)
  have "fetch_loop kw t cap [] (hv (lstrip_hash kw) FETCH_COUNT_PER_KEYWORD) = Inr (rows, rest)"
    using Inr res by (simp add: fetch_for_keyword_def)
  then have "\<forall>r \<in> set rows. P r"
    by (rule fetch_loop_inv) (simp, rule assms)
  then show ?thesis using Inr res by (simp add: rows_of_def)
qed

lemma keyword_loop_rows:
  "fst (keyword_loop api t cap i agg evs kws) = agg @ contributions api t cap i kws"
proof (induction kws arbitrary: i agg evs)
  case Nil
  show ?case by (simp add: contributions_def)
next
  case (Cons k ks)
  have c: "contributions api t cap i (k # ks) =
      rows_of (fetch_for_keyword (api i) k t cap) @ contributions api t cap (Suc i) ks"
    by (simp add: contributions_def)
  show ?case
  proof (cases "fetch_for_keyword (api i) k t cap")
    case (Inl e)
    then show ?thesis using Cons [of "Suc i" agg] by (simp add: c rows_of_def)
  next
    case (Inr res)
    obtain rows rest where res: "res = (rows, rest)" by (cases res)
    show ?thesis using Inr res Cons [of "Suc i" "agg @ rows"] by (simp add: c rows_of_def)
  qed
qed

lemma contributions_append:
  "contributions api t cap i (xs @ ys) =
     contributions api t cap i xs @ contributions api t cap (i + length xs) ys"
  by (induction xs arbitrary: i) (simp_all add: contributions_def)

lemma contributions_all:
  assumes "\<And>hv k. \<forall>r \<in> set (rows_of (fetch_for_keyword hv k t cap)). P r"
  shows "\<forall>r \<in> set (contributions api t cap i kws). P r"
  using assms by (induction kws arbitrary: i) (auto simp: contributions_def)

lemmas example_defs =
  example_api_def example_cats_def example_video_def example_row_def
  fetch_for_keyword_def process_video_def py_or_def dict_get_def py_get_def bind_def
  lstrip_hash_def rows_of_def contributions_def enumerate_simps

lemma accepted_Cons:
  "accepted kw t (v # vs) =
     (case process_video kw t v of Inr (Some r) \<Rightarrow> [r] | _ \<Rightarrow> []) @ accepted kw t vs"
  by (simp add: accepted_def)

lemma fetch_loop_take:
  assumes "clean kw t u" and "results = [] \<or> int (length results) < cap"
  shows "\<exists>rest. fetch_loop kw t cap results u =
     Inr (take (nat (max 1 cap)) (results @ accepted kw t (candidates u)), rest)"
  using assms
proof (induction u arbitrary: results)
  case Exhausted
  then show ?case by (auto simp: accepted_def)
next
  case (Raise e)
  then show ?case by (simp add: clean_def)
next
  case (Yield v u)
  have cl: "clean kw t u" and nv: "\<not> isl (process_video kw t v)"
    using Yield.prems(1) by (simp_all add: clean_def)
  from nv obtain out where out: "process_video kw t v = Inr out"
    by (cases "process_video kw t v") simp_all
  show ?case
  proof (cases out)
    case None
    then show ?thesis
      using out Yield.IH [OF cl Yield.prems(2)] by (simp add: accepted_Cons)
  next
    case (Some r)
    show ?thesis
    proof (cases "cap \<le> int (length (results @ [r]))")
      case True
      then have "nat (max 1 cap) = Suc (length results)"
        using Yield.prems(2) by auto
      then have "take (nat (max 1 cap)) (results @ accepted kw t (candidates (Yield v u))) =
          results @ [r]"
        using out Some by (simp add: accepted_Cons)
      then show ?thesis using out Some True by simp
    next
      case False
      then have "results @ [r] = [] \<or> int (length (results @ [r])) < cap" by simp
      from Yield.IH [OF cl this] show ?thesis
        using out Some False by (simp add: accepted_Cons)
    qed
  qed
qed

lemma fetch_positive_cap:
  assumes "clean kw t (hv (lstrip_hash kw) FETCH_COUNT_PER_KEYWORD)" and "1 \<le> cap"
  shows "rows_of (fetch_for_keyword hv kw t cap) =
       take (nat cap) (accepted kw t (candidates (hv (lstrip_hash kw) FETCH_COUNT_PER_KEYWORD))) \<and>
     \<not> isl (fetch_for_keyword hv kw t cap) \<and>
     int (length (rows_of (fetch_for_keyword hv kw t cap))) =
       min (int (length (accepted kw t
         (candidates (hv (lstrip_hash kw) FETCH_COUNT_PER_KEYWORD))))) cap"
proof -
  obtain rest where "fetch_for_keyword hv kw t cap =
      Inr (take (nat (max 1 cap))
        (accepted kw t (candidates (hv (lstrip_hash kw) FETCH_COUNT_PER_KEYWORD))), rest)"
    using fetch_loop_take [OF assms(1), of "[]" cap] by (auto simp: fetch_for_keyword_def)
  moreover have "max 1 cap = cap" using assms(2) by simp
  ultimately show ?thesis using assms(2) by (auto simp: rows_of_def)
qed

lemma fetch_loop_stops:
  assumes "fetch_loop kw t cap results u = Inr (rows, rest)"
  shows "\<exists>pulled. candidates u = pulled @ candidates rest \<and> fails rest = fails u \<and>
     rows = results @ accepted kw t pulled \<and>
     (rest = Exhausted \<or>
      (cap \<le> int (length rows) \<and> pulled \<noteq> [] \<and>
       rows = results @ accepted kw t (butlast pulled) @ [last rows] \<and>
       process_video kw t (last pulled) = Inr (Some (last rows))))"
  using assms
proof (induction u arbitrary: results)
  case Exhausted
  then show ?case by (auto simp: accepted_def)
next
  case (Raise e)
  then show ?case by simp
next
  case (Yield v u)
  from Yield.prems obtain out where out: "process_video kw t v = Inr out"
    by (cases "process_video kw t v") simp_all
  show ?case
  proof (cases out)
    case None
    then have "fetch_loop kw t cap results u = Inr (rows, rest)"
      using out Yield.prems by simp
    from Yield.IH [OF this] obtain pulled where p:
      "candidates u = pulled @ candidates rest" "fails rest = fails u"
      "rows = results @ accepted kw t pulled"
      "rest = Exhausted \<or>
        (cap \<le> int (length rows) \<and> pulled \<noteq> [] \<and>
         rows = results @ accepted kw t (butlast pulled) @ [last rows] \<and>
         process_video kw t (last pulled) = Inr (Some (last rows)))"
      by blast
    have "candidates (Yield v u) = (v # pulled) @ candidates rest \<and>
      fails rest = fails (Yield v u) \<and> rows = results @ accepted kw t (v # pulled) \<and>
      (rest = Exhausted \<or>
        (cap \<le> int (length rows) \<and> v # pulled \<noteq> [] \<and>
         rows = results @ accepted kw t (butlast (v # pulled)) @ [last rows] \<and>
         process_video kw t (last (v # pulled)) = Inr (Some (last rows))))"
      using p out None by (auto simp: accepted_Cons)
    then show ?thesis by blast
  next
    case (Some r)
    show ?thesis
    proof (cases "cap \<le> int (length (results @ [r]))")
      case True
      then have "rows = results @ [r]" "rest = u"
        using out Some Yield.prems by simp_all
      then have "candidates (Yield v u) = [v] @ candidates rest \<and>
        fails rest = fails (Yield v u) \<and> rows = results @ accepted kw t [v] \<and>
        (rest = Exhausted \<or>
          (cap \<le> int (length rows) \<and> [v] \<noteq> [] \<and>
           rows = results @ accepted kw t (butlast [v]) @ [last rows] \<and>
           process_video kw t (last [v]) = Inr (Some (last rows))))"
        using out Some True by (simp add: accepted_def)
      then show ?thesis by blast
    next
      case False
      then have "fetch_loop kw t cap (results @ [r]) u = Inr (rows, rest)"
        using out Some Yield.prems by simp
      from Yield.IH [OF this] obtain pulled where p:
        "candidates u = pulled @ candidates rest" "fails rest = fails u"
        "rows = (results @ [r]) @ accepted kw t pulled"
        "rest = Exhausted \<or>
          (cap \<le> int (length rows) \<and> pulled \<noteq> [] \<and>
           rows = (results @ [r]) @ accepted kw t (butlast pulled) @ [last rows] \<and>
           process_video kw t (last pulled) = Inr (Some (last rows)))"
        by blast
      have "candidates (Yield v u) = (v # pulled) @ candidates rest \<and>
        fails rest = fails (Yield v u) \<and> rows = results @ accepted kw t (v # pulled) \<and>
        (rest = Exhausted \<or>
          (cap \<le> int (length rows) \<and> v # pulled \<noteq> [] \<and>
           rows = results @ accepted kw t (butlast (v # pulled)) @ [last rows] \<and>
           process_video kw t (last (v # pulled)) = Inr (Some (last rows))))"
        using p out Some by (auto simp: accepted_Cons)
      then show ?thesis by blast
    qed
  qed
qed

section \<open>Properties of the metadata that raises\<close>

lemma py_or_dict:
  assumes "\<not> bad_dict s"
  shows "py_or s (PDict []) = PDict (case s of PDict d \<Rightarrow> d | _ \<Rightarrow> [])"
  using assms by (cases s) (simp_all add: py_or_def is_dict_def bad_dict_def)

lemma py_get_bad_dict:
  assumes "bad_dict s"
  shows "py_get (py_or s (PDict [])) k d = Inl AttributeError"
  using assms by (cases s) (simp_all add: py_or_def py_get_def is_dict_def bad_dict_def)

lemma py_get_dict: "py_get (PDict d) k x = Inr (dict_get d k x)"
  by (simp add: py_get_def)

lemma py_or_likes:
  "py_or (dict_get d k (PInt 0)) (PInt 0) =
     (if truthy (dict_get d k PNone) then dict_get d k PNone else PInt 0)"
  by (cases "map_of d k") (simp_all add: dict_get_def py_or_def)

lemma process_video_bad_stats:
  assumes "bad_dict (dict_get (as_dict v) ''stats'' PNone)"
  shows "process_video kw t v = Inl AttributeError"
  unfolding process_video_def Let_def
  by (simp add: py_get_bad_dict [OF assms] bind_def)

lemma process_video_bad_likes:
  assumes "\<not> bad_dict (dict_get (as_dict v) ''stats'' PNone)"
    and "truthy (raw_likes v)" and "py_int (raw_likes v) = Inl e"
  shows "process_video kw t v = Inl e"
proof -
  have s: "py_or (dict_get (as_dict v) ''stats'' PNone) (PDict []) = PDict (stats_dict v)"
    using py_or_dict [OF assms(1)] by (simp add: stats_dict_def)
  have "py_int (if truthy (raw_likes v) then raw_likes v else PInt 0) = Inl e"
    using assms(2,3) by simp
  then have l: "py_int (py_or (dict_get (stats_dict v) ''diggCount'' (PInt 0)) (PInt 0)) = Inl e"
    unfolding py_or_likes raw_likes_def .
  show ?thesis
    unfolding process_video_def Let_def s
    by (simp add: py_get_def bind_def l)
qed

lemma py_int_likes:
  assumes "\<not> (truthy (raw_likes v) \<and> isl (py_int (raw_likes v)))"
  shows "py_int (py_or (dict_get (stats_dict v) ''diggCount'' (PInt 0)) (PInt 0)) =
     Inr (likes v)"
proof -
  have "py_int (if truthy (raw_likes v) then raw_likes v else PInt 0) = Inr (likes v)"
  proof (cases "truthy (raw_likes v)")
    case True
    with assms have "\<not> isl (py_int (raw_likes v))" by simp
    then show ?thesis
      using True by (cases "py_int (raw_likes v)") (simp_all add: likes_def)
  next
    case False
    then show ?thesis by (simp add: likes_def)
  qed
  then show ?thesis unfolding py_or_likes raw_likes_def .
qed

lemma process_video_counted:
  assumes "\<not> bad_dict (dict_get (as_dict v) ''stats'' PNone)"
    and "\<not> (truthy (raw_likes v) \<and> isl (py_int (raw_likes v)))"
  shows "process_video kw t v =
     (if likes v < t then Inr None
      else if bad_dict (dict_get (as_dict v) ''author'' PNone) then Inl AttributeError
      else Inr (Some
        [(''keyword'', PStr kw),
         (''video_id'', dict_get (as_dict v) ''id'' PNone),
         (''description'', dict_get (as_dict v) ''desc'' PNone),
         (''like_count'', PInt (likes v)),
         (''comment_count'', dict_get (stats_dict v) ''commentCount'' PNone),
         (''share_count'', dict_get (stats_dict v) ''shareCount'' PNone),
         (''play_count'', dict_get (stats_dict v) ''playCount'' PNone),
         (''author_uniqueId'',
            dict_get (case dict_get (as_dict v) ''author'' PNone of PDict d \<Rightarrow> d | _ \<Rightarrow> [])
              ''uniqueId'' PNone),
         (''author_nickname'',
            dict_get (case dict_get (as_dict v) ''author'' PNone of PDict d \<Rightarrow> d | _ \<Rightarrow> [])
              ''nickname'' PNone),
         (''url'', url v)]))"
proof -
  have s: "py_or (dict_get (as_dict v) ''stats'' PNone) (PDict []) = PDict (stats_dict v)"
    using py_or_dict [OF assms(1)] by (simp add: stats_dict_def)
  note l = py_int_likes [OF assms(2)]
  show ?thesis
  proof (cases "bad_dict (dict_get (as_dict v) ''author'' PNone)")
    case True
    show ?thesis
      unfolding process_video_def Let_def s
      using True by (simp add: py_get_dict py_get_bad_dict [OF True] bind_def l)
  next
    case False
    have a: "py_or (dict_get (as_dict v) ''author'' PNone) (PDict []) =
        PDict (case dict_get (as_dict v) ''author'' PNone of PDict d \<Rightarrow> d | _ \<Rightarrow> [])"
      by (rule py_or_dict [OF False])
    show ?thesis
      unfolding process_video_def Let_def s a
      using False by (simp add: py_get_dict bind_def l)
  qed
qed

lemma process_video_raises_iff: "isl (process_video kw t v) \<longleftrightarrow> item_raises t v"
proof (cases "bad_dict (dict_get (as_dict v) ''stats'' PNone)")
  case True
  then show ?thesis
    by (simp add: process_video_bad_stats item_raises_def)
next
  case ok: False
  show ?thesis
  proof (cases "truthy (raw_likes v) \<and> isl (py_int (raw_likes v))")
    case True
    then obtain e where "py_int (raw_likes v) = Inl e"
      by (cases "py_int (raw_likes v)") simp_all
    then have "process_video kw t v = Inl e"
      using ok True by (simp add: process_video_bad_likes)
    then show ?thesis using True by (simp add: item_raises_def)
  next
    case False
    show ?thesis
      unfolding process_video_counted [OF ok False] item_raises_def
      using ok False by auto
  qed
qed

lemma fetch_loop_no_raise:
  assumes "\<not> fails u" and "\<forall>v \<in> set (candidates u). \<not> item_raises t v"
  shows "\<not> isl (fetch_loop kw t cap results u)"
  using assms
proof (induction u arbitrary: results)
  case Exhausted
  show ?case by simp
next
  case (Raise e)
  then show ?case by simp
next
  case (Yield v u)
  have "\<not> isl (process_video kw t v)"
    using Yield.prems(2) by (simp add: process_video_raises_iff)
  then obtain out where out: "process_video kw t v = Inr out"
    by (cases "process_video kw t v") simp_all
  have ih: "\<not> isl (fetch_loop kw t cap rs u)" for rs
    using Yield.IH Yield.prems by simp
  show ?case
    using ih out by (cases out) simp_all
qed

section \<open>Properties of the writer and of the run\<close>

lemma dict_get_keys:
  "distinct (map fst r) \<Longrightarrow> map (\<lambda>k. dict_get r k d) (map fst r) = map snd r"
proof (induction r)
  case Nil
  show ?case by simp
next
  case (Cons p r)
  obtain a b where p: "p = (a, b)" by (cases p)
  have "map (\<lambda>k. dict_get ((a, b) # r) k d) (map fst r) = map (\<lambda>k. dict_get r k d) (map fst r)"
    using Cons.prems p by (intro map_cong refl) (auto simp: dict_get_def)
  then show ?case
    using Cons p by (simp add: dict_get_def)
qed

lemma dict_to_list_record:
  assumes "record_keys r"
  shows "dict_to_list default_fieldnames r = Inr (map snd r)"
proof -
  have k: "map fst r = default_fieldnames" using assms by (simp add: record_keys_def)
  have "distinct default_fieldnames" by (simp add: default_fieldnames_def)
  then have "distinct (map fst r)" using k by simp
  then have "map (\<lambda>k. dict_get r k (PStr [])) (map fst r) = map snd r"
    by (rule dict_get_keys)
  then show ?thesis
    unfolding dict_to_list_def using k by simp
qed

lemma write_loop_records:
  assumes "\<forall>r \<in> set rows. record_keys r"
  shows "write_loop default_fieldnames out rows = (out @ map (map snd) rows, None)"
  using assms by (induction rows arbitrary: out) (simp_all add: dict_to_list_record)

lemma write_rows_records:
  assumes "\<forall>r \<in> set rows. record_keys r"
  shows "write_rows rows =
     (map PStr default_fieldnames # map (map snd) rows, Inr (length rows))"
proof -
  have "(if rows \<noteq> [] then map fst (hd rows) else default_fieldnames) = default_fieldnames"
    using assms by (cases rows) (simp_all add: record_keys_def)
  then show ?thesis
    unfolding write_rows_def Let_def
    by (simp add: write_loop_records [OF assms])
qed

lemma aggregate_records:
  "\<forall>r \<in> set (fst (keyword_loop api t cap i [] evs kws)). record_keys r"
proof -
  have one: "\<forall>r \<in> set (rows_of (fetch_for_keyword hv k t cap)). record_keys r" for hv k
    by (rule rows_of_fetch) (simp add: process_video_row)
  show ?thesis
    unfolding keyword_loop_rows append_Nil
    by (rule contributions_all) (rule one)
qed

lemma write_loop_header:
  "out \<noteq> [] \<Longrightarrow> fst (write_loop fs out rs) \<noteq> [] \<and> hd (fst (write_loop fs out rs)) = hd out"
  by (induction rs arbitrary: out) (auto split: sum.splits)

lemma write_rows_header:
  assumes "rows \<noteq> []"
  shows "hd (fst (write_rows rows)) = map PStr (map fst (hd rows))"
proof -
  obtain out failure where
    w: "write_loop (map fst (hd rows)) [map PStr (map fst (hd rows))] rows = (out, failure)"
    by (cases "write_loop (map fst (hd rows)) [map PStr (map fst (hd rows))] rows")
  have "hd out = map PStr (map fst (hd rows))"
    using write_loop_header [of "[map PStr (map fst (hd rows))]" "map fst (hd rows)" rows] w
    by simp
  moreover have "fst (write_rows rows) = out"
    using assms w unfolding write_rows_def Let_def by (cases failure) simp_all
  ultimately show ?thesis by simp
qed

lemma main_async_no_tokens:
  "get_ms_tokens (environ w) = Inl e \<Longrightarrow> main_async w a = ([], Inl e)"
  by (simp add: main_async_def ensure_ms_tokens_def)

lemma main_async_no_keywords:
  "\<not> isl (get_ms_tokens (environ w)) \<Longrightarrow>
   read_keywords_safe (files w) (input_path a) = Inl e \<Longrightarrow> main_async w a = ([], Inl e)"
  by (cases "get_ms_tokens (environ w)") (simp_all add: main_async_def ensure_ms_tokens_def)

lemma main_async_opens:
  assumes "get_ms_tokens (environ w) = Inr ts"
    and "read_keywords_safe (files w) (input_path a) = Inr ks"
  shows "\<exists>rest. fst (main_async w a) =
     CreateSessions ts (length ts) 3 (browser (environ w)) # rest"
proof (cases "create_sessions w ts (length ts)")
  case (Some e)
  then show ?thesis using assms by (simp add: main_async_def ensure_ms_tokens_def)
next
  case None
  obtain agg evs where l: "keyword_loop (videos w) (min_likes a) (max_per_keyword a) 0 []
      [CreateSessions ts (length ts) 3 (browser (environ w))] ks = (agg, evs)"
    by (cases "keyword_loop (videos w) (min_likes a) (max_per_keyword a) 0 []
      [CreateSessions ts (length ts) 3 (browser (environ w))] ks")
  have "evs = [CreateSessions ts (length ts) 3 (browser (environ w))] @ map FetchForKeyword ks"
    using keyword_loop_events [of "videos w" "min_likes a" "max_per_keyword a" 0 "[]"
        "[CreateSessions ts (length ts) 3 (browser (environ w))]" ks] l
    by simp
  then show ?thesis
    using assms None l
    by (simp add: main_async_def ensure_ms_tokens_def Let_def split: prod.splits)
qed

section \<open>Claims\<close>

text \<open>
  C1. With the cap 0, a threshold of 1000 and candidates with 500, 1500, 2000 and 100
  likes, two candidates meet the threshold and \<open>fetch_for_keyword\<close> returns one record,
  where min(K, C) = 0 and the bound length \<le> C ask for none: the cap is tested only after
  a record has been appended. (For a cap of at least 1 the result is the first C accepted
  records and nothing more is pulled: \<open>fetch_positive_cap\<close>, \<open>fetch_loop_stops\<close>.)
\<close>

theorem cap_zero_returns_one_record:
  "fetch_for_keyword (example_api 0) ''#cats'' 1000 0 =
     Inr ([example_row ''#cats'' 1500],
          Yield (example_video 2000) (Yield (example_video 100) Exhausted)) \<and>
   length (rows_of (fetch_for_keyword (example_api 0) ''#cats'' 1000 0)) = 1 \<and>
   length (accepted ''#cats'' 1000 (candidates example_cats)) = 2"
  by (simp add: example_defs accepted_def)

text \<open>
  C2, as stated, fails: a like count that is a non-numeric string makes \<open>int\<close> raise
  \<open>ValueError\<close>, and the author of an accepted video that is a non-empty string has no
  \<open>get\<close>; both exceptions leave \<open>fetch_for_keyword\<close>.
\<close>

theorem non_numeric_like_count_raises:
  "fetch_for_keyword
     (\<lambda>name count.
        Yield \<lparr>as_dict = [(''stats'', PDict [(''diggCount'', PStr ''n/a'')])], url = PNone\<rparr>
          Exhausted) ''cats'' 1000 20 = Inl ValueError \<and>
   fetch_for_keyword
     (\<lambda>name count. Yield \<lparr>as_dict = [(''author'', PStr ''ana'')], url = PNone\<rparr> Exhausted)
     ''cats'' 0 20 = Inl AttributeError"
  by (simp add: example_defs str_to_int_def int_space_def isdigit_def MAX_STR_DIGITS_def)

text \<open>
  C2, amended. Processing a video raises exactly when its statistics are a truthy value
  that is not a dictionary, or its like count is truthy and \<open>int\<close> refuses it, or it meets
  the threshold and its author is a truthy value that is not a dictionary. In every other
  case nothing is raised: an absent or falsy like count counts as zero, so the video is
  discarded under a positive threshold and accepted with like count 0 otherwise, and
  absent fields become \<open>None\<close>. A video that raises when it is pulled makes the fetch
  raise, and a fetch over a sequence that does not itself raise and holds no such video
  returns.
\<close>

theorem metadata_errors_exact:
  "(isl (process_video kw t v) \<longleftrightarrow> item_raises t v) \<and>
   (\<not> item_raises t v \<and> \<not> truthy (raw_likes v) \<longrightarrow>
      likes v = 0 \<and>
      (0 < t \<longrightarrow> process_video kw t v = Inr None) \<and>
      (t \<le> 0 \<longrightarrow> (\<exists>r. process_video kw t v = Inr (Some r) \<and>
         map_of r ''like_count'' = Some (PInt 0)))) \<and>
   (item_raises t v \<longrightarrow> isl (fetch_loop kw t cap results (Yield v rest))) \<and>
   (\<not> fails (hv (lstrip_hash kw) FETCH_COUNT_PER_KEYWORD) \<and>
    (\<forall>x \<in> set (candidates (hv (lstrip_hash kw) FETCH_COUNT_PER_KEYWORD)).
       \<not> item_raises t x) \<longrightarrow>
      \<not> isl (fetch_for_keyword hv kw t cap))"
proof (intro conjI impI)
  show "isl (process_video kw t v) \<longleftrightarrow> item_raises t v"
    by (rule process_video_raises_iff)
next
  assume "\<not> item_raises t v \<and> \<not> truthy (raw_likes v)"
  then show "likes v = 0" by (simp add: likes_def)
next
  assume h: "\<not> item_raises t v \<and> \<not> truthy (raw_likes v)" and t: "0 < t"
  have "process_video kw t v =
      (if likes v < t then Inr None
       else if bad_dict (dict_get (as_dict v) ''author'' PNone) then Inl AttributeError
       else Inr (Some
        [(''keyword'', PStr kw),
         (''video_id'', dict_get (as_dict v) ''id'' PNone),
         (''description'', dict_get (as_dict v) ''desc'' PNone),
         (''like_count'', PInt (likes v)),
         (''comment_count'', dict_get (stats_dict v) ''commentCount'' PNone),
         (''share_count'', dict_get (stats_dict v) ''shareCount'' PNone),
         (''play_count'', dict_get (stats_dict v) ''playCount'' PNone),
         (''author_uniqueId'',
            dict_get (case dict_get (as_dict v) ''author'' PNone of PDict d \<Rightarrow> d | _ \<Rightarrow> [])
              ''uniqueId'' PNone),
         (''author_nickname'',
            dict_get (case dict_get (as_dict v) ''author'' PNone of PDict d \<Rightarrow> d | _ \<Rightarrow> [])
              ''nickname'' PNone),
         (''url'', url v)]))"
    using h by (intro process_video_counted) (simp_all add: item_raises_def)
  moreover have "likes v = 0" using h by (simp add: likes_def)
  ultimately show "process_video kw t v = Inr None" using t by simp
next
  assume h: "\<not> item_raises t v \<and> \<not> truthy (raw_likes v)" and t: "t \<le> 0"
  have l: "likes v = 0" using h by (simp add: likes_def)
  have a: "\<not> bad_dict (dict_get (as_dict v) ''author'' PNone)"
    using h t l by (simp add: item_raises_def)
  have "process_video kw t v =
      (if likes v < t then Inr None
       else if bad_dict (dict_get (as_dict v) ''author'' PNone) then Inl AttributeError
       else Inr (Some
        [(''keyword'', PStr kw),
         (''video_id'', dict_get (as_dict v) ''id'' PNone),
         (''description'', dict_get (as_dict v) ''desc'' PNone),
         (''like_count'', PInt (likes v)),
         (''comment_count'', dict_get (stats_dict v) ''commentCount'' PNone),
         (''share_count'', dict_get (stats_dict v) ''shareCount'' PNone),
         (''play_count'', dict_get (stats_dict v) ''playCount'' PNone),
         (''author_uniqueId'',
            dict_get (case dict_get (as_dict v) ''author'' PNone of PDict d \<Rightarrow> d | _ \<Rightarrow> [])
              ''uniqueId'' PNone),
         (''author_nickname'',
            dict_get (case dict_get (as_dict v) ''author'' PNone of PDict d \<Rightarrow> d | _ \<Rightarrow> [])
              ''nickname'' PNone),
         (''url'', url v)]))"
    using h by (intro process_video_counted) (simp_all add: item_raises_def)
  then show "\<exists>r. process_video kw t v = Inr (Some r) \<and> map_of r ''like_count'' = Some (PInt 0)"
    using l a t by simp
next
  assume "item_raises t v"
  then have "isl (process_video kw t v)" by (simp add: process_video_raises_iff)
  then obtain e where "process_video kw t v = Inl e"
    by (cases "process_video kw t v") simp_all
  then show "isl (fetch_loop kw t cap results (Yield v rest))" by simp
next
  assume "\<not> fails (hv (lstrip_hash kw) FETCH_COUNT_PER_KEYWORD) \<and>
    (\<forall>x \<in> set (candidates (hv (lstrip_hash kw) FETCH_COUNT_PER_KEYWORD)). \<not> item_raises t x)"
  then show "\<not> isl (fetch_for_keyword hv kw t cap)"
    unfolding fetch_for_keyword_def Let_def
    by (intro fetch_loop_no_raise) simp_all
qed

theorem metadata_errors_exact_witness:
  "likes \<lparr>as_dict = [(''id'', PStr ''7302''), (''stats'', PNone)], url = PNone\<rparr> = 0 \<and>
   process_video ''cats'' 1000
     \<lparr>as_dict = [(''id'', PStr ''7302''), (''stats'', PNone)], url = PNone\<rparr> = Inr None \<and>
   process_video ''cats'' 0
     \<lparr>as_dict = [(''id'', PStr ''7302''), (''stats'', PNone)], url = PNone\<rparr> =
     Inr (Some [(''keyword'', PStr ''cats''), (''video_id'', PStr ''7302''),
       (''description'', PNone), (''like_count'', PInt 0), (''comment_count'', PNone),
       (''share_count'', PNone), (''play_count'', PNone), (''author_uniqueId'', PNone),
       (''author_nickname'', PNone), (''url'', PNone)]) \<and>
   \<not> isl (process_video ''cats'' 1 \<lparr>as_dict = [(''author'', PStr ''ana'')], url = PNone\<rparr>) \<and>
   isl (process_video ''cats'' 0 \<lparr>as_dict = [(''author'', PStr ''ana'')], url = PNone\<rparr>) \<and>
   isl (fetch_loop ''cats'' 0 20 []
     (Yield \<lparr>as_dict = [(''author'', PStr ''ana'')], url = PNone\<rparr> Exhausted)) \<and>
   fetch_for_keyword
     (\<lambda>name count.
        Yield \<lparr>as_dict = [(''author'', PStr ''ana'')], url = PNone\<rparr>
          (Yield (example_video 1500) Exhausted)) ''cats'' 1000 20 =
     Inr ([example_row ''cats'' 1500], Exhausted)"
proof -
  define v where "v = \<lparr>as_dict = [(''id'', PStr ''7302''), (''stats'', PNone)], url = PNone\<rparr>"
  define a where "a = \<lparr>as_dict = [(''author'', PStr ''ana'')], url = PNone\<rparr>"
  define hv :: "string \<Rightarrow> nat \<Rightarrow> upstream"
    where "hv = (\<lambda>name count. Yield a (Yield (example_video 1500) Exhausted))"
  have lv: "likes v = 0" and fv: "\<not> truthy (raw_likes v)"
    by (simp_all add: v_def likes_def raw_likes_def stats_dict_def dict_get_def)
  have la: "likes a = 0"
    by (simp add: a_def likes_def raw_likes_def stats_dict_def dict_get_def)
  have nv: "\<not> item_raises t v" for t
    by (simp add: v_def item_raises_def bad_dict_def is_dict_def raw_likes_def stats_dict_def
        dict_get_def)
  have na: "\<not> item_raises t a" if "0 < t" for t
    using that la
    by (simp add: item_raises_def)
      (simp add: a_def bad_dict_def is_dict_def raw_likes_def stats_dict_def dict_get_def)
  have ra: "item_raises 0 a"
    using la by (simp add: item_raises_def) (simp add: a_def bad_dict_def is_dict_def dict_get_def)
  have ne: "\<not> item_raises 1000 (example_video 1500)"
    by (simp add: example_video_def item_raises_def bad_dict_def is_dict_def raw_likes_def
        stats_dict_def dict_get_def)
  have h4: "\<not> fails (hv (lstrip_hash ''cats'') FETCH_COUNT_PER_KEYWORD) \<and>
      (\<forall>x \<in> set (candidates (hv (lstrip_hash ''cats'') FETCH_COUNT_PER_KEYWORD)).
         \<not> item_raises 1000 x)"
    using na [of 1000] ne by (simp add: hv_def)
  note t0 = metadata_errors_exact [of "''cats''" 0 v 20 "[]" Exhausted hv]
    and t1 = metadata_errors_exact [of "''cats''" 1000 v 20 "[]" Exhausted hv]
    and a0 = metadata_errors_exact [of "''cats''" 0 a 20 "[]" Exhausted hv]
    and a1 = metadata_errors_exact [of "''cats''" 1 a 20 "[]" Exhausted hv]
  from t1 nv [of 1000] fv have r1: "likes v = 0" by blast
  from t1 nv [of 1000] fv have r2: "process_video ''cats'' 1000 v = Inr None" by simp
  from t0 nv [of 0] fv obtain r where "process_video ''cats'' 0 v = Inr (Some r)" by auto
  moreover have "process_video ''cats'' 0 v =
     Inr (Some [(''keyword'', PStr ''cats''), (''video_id'', PStr ''7302''),
       (''description'', PNone), (''like_count'', PInt 0), (''comment_count'', PNone),
       (''share_count'', PNone), (''play_count'', PNone), (''author_uniqueId'', PNone),
       (''author_nickname'', PNone), (''url'', PNone)])"
    by (simp add: v_def example_defs)
  ultimately have r3: "process_video ''cats'' 0 v =
     Inr (Some [(''keyword'', PStr ''cats''), (''video_id'', PStr ''7302''),
       (''description'', PNone), (''like_count'', PInt 0), (''comment_count'', PNone),
       (''share_count'', PNone), (''play_count'', PNone), (''author_uniqueId'', PNone),
       (''author_nickname'', PNone), (''url'', PNone)])"
    by simp
  from a1 na [of 1] have r4: "\<not> isl (process_video ''cats'' 1 a)" by simp
  from a0 ra have r5: "isl (process_video ''cats'' 0 a)" by simp
  from a0 ra have r6: "isl (fetch_loop ''cats'' 0 20 [] (Yield a Exhausted))" by blast
  from t1 h4 have "\<not> isl (fetch_for_keyword hv ''cats'' 1000 20)" by blast
  moreover have "isl (fetch_for_keyword hv ''cats'' 1000 20) \<or>
       fetch_for_keyword hv ''cats'' 1000 20 = Inr ([example_row ''cats'' 1500], Exhausted)"
    by (simp add: hv_def a_def example_defs)
  ultimately have r7: "fetch_for_keyword hv ''cats'' 1000 20 =
      Inr ([example_row ''cats'' 1500], Exhausted)"
    by blast
  show ?thesis
    using r1 r2 r3 r4 r5 r6 r7 unfolding hv_def v_def a_def by simp
qed

text \<open>
  C3. The aggregate of the keyword loop is the concatenation, in keyword order, of the
  rows of the keywords whose fetch returns; a keyword whose fetch raises contributes no
  row and the rows of the keywords before and after it are kept; when every fetch raises
  the aggregate is empty. The loop itself has no raising path.
\<close>

theorem failure_isolation:
  "fst (keyword_loop api t cap i agg evs kws) = agg @ contributions api t cap i kws \<and>
   (isl (fetch_for_keyword (api (i + length before)) x t cap) \<longrightarrow>
      fst (keyword_loop api t cap i agg evs (before @ x # after)) =
        agg @ contributions api t cap i before @
          contributions api t cap (Suc (i + length before)) after) \<and>
   ((\<forall>j < length kws. isl (fetch_for_keyword (api (i + j)) (kws ! j) t cap)) \<longrightarrow>
      fst (keyword_loop api t cap i [] evs kws) = [])"
proof (intro conjI impI)
  show "fst (keyword_loop api t cap i agg evs kws) = agg @ contributions api t cap i kws"
    by (rule keyword_loop_rows)
next
  assume "isl (fetch_for_keyword (api (i + length before)) x t cap)"
  then have "rows_of (fetch_for_keyword (api (i + length before)) x t cap) = []"
    by (cases "fetch_for_keyword (api (i + length before)) x t cap") (simp_all add: rows_of_def)
  then have "contributions api t cap (i + length before) (x # after) =
      contributions api t cap (Suc (i + length before)) after"
    by (simp add: contributions_def)
  then show "fst (keyword_loop api t cap i agg evs (before @ x # after)) =
        agg @ contributions api t cap i before @
          contributions api t cap (Suc (i + length before)) after"
    by (simp add: keyword_loop_rows contributions_append)
next
  assume "\<forall>j < length kws. isl (fetch_for_keyword (api (i + j)) (kws ! j) t cap)"
  then have "contributions api t cap i kws = []"
  proof (induction kws arbitrary: i)
    case Nil
    show ?case by (simp add: contributions_def)
  next
    case (Cons k ks)
    have "isl (fetch_for_keyword (api (i + 0)) ((k # ks) ! 0) t cap)"
      using Cons.prems by blast
    then have "rows_of (fetch_for_keyword (api i) k t cap) = []"
      by (cases "fetch_for_keyword (api i) k t cap") (simp_all add: rows_of_def)
    moreover have "\<forall>j < length ks. isl (fetch_for_keyword (api (Suc i + j)) (ks ! j) t cap)"
    proof (intro allI impI)
      fix j assume "j < length ks"
      then have "Suc j < length (k # ks)" by simp
      then have "isl (fetch_for_keyword (api (i + Suc j)) ((k # ks) ! Suc j) t cap)"
        using Cons.prems by blast
      then show "isl (fetch_for_keyword (api (Suc i + j)) (ks ! j) t cap)" by simp
    qed
    then have "contributions api t cap (Suc i) ks = []" by (rule Cons.IH)
    ultimately show ?case by (simp add: contributions_def)
  qed
  then show "fst (keyword_loop api t cap i [] evs kws) = []"
    by (simp add: keyword_loop_rows)
qed

theorem failure_isolation_witness:
  "fst (keyword_loop example_api 1000 2 0 [] [] [''#cats'', ''dogs'', ''cats'']) =
     [example_row ''#cats'' 1500, example_row ''#cats'' 2000,
      example_row ''cats'' 1500, example_row ''cats'' 2000] \<and>
   fst (keyword_loop example_api 1000 2 0 [] [] [''dogs'', ''birds'']) = []"
proof -
  have e1: "contributions example_api 1000 2 0 [''#cats''] =
      [example_row ''#cats'' 1500, example_row ''#cats'' 2000]"
    by (simp add: example_defs)
  have e2: "isl (fetch_for_keyword (example_api (0 + length [''#cats''])) ''dogs'' 1000 2)"
    by (simp add: example_defs)
  have e3: "contributions example_api 1000 2 (Suc (0 + length [''#cats''])) [''cats''] =
      [example_row ''cats'' 1500, example_row ''cats'' 2000]"
    by (simp add: example_defs)
  have e4: "\<forall>j < length [''dogs'', ''birds''].
      isl (fetch_for_keyword (example_api (0 + j)) ([''dogs'', ''birds''] ! j) 1000 2)"
  proof (intro allI impI)
    fix j :: nat
    assume "j < length [''dogs'', ''birds'']"
    then have "j = 0 \<or> j = 1" by auto
    then show "isl (fetch_for_keyword (example_api (0 + j)) ([''dogs'', ''birds''] ! j) 1000 2)"
      by (auto simp: example_defs)
  qed
  note f1 = failure_isolation [of example_api 1000 2 0 "[]" "[]" "[''dogs'', ''birds'']"
      "[''#cats'']" "''dogs''" "[''cats'']"]
  from f1 e2 have "fst (keyword_loop example_api 1000 2 0 [] [] ([''#cats''] @ ''dogs'' # [''cats''])) =
      [] @ contributions example_api 1000 2 0 [''#cats''] @
        contributions example_api 1000 2 (Suc (0 + length [''#cats''])) [''cats'']"
    by blast
  then have r1: "fst (keyword_loop example_api 1000 2 0 [] [] [''#cats'', ''dogs'', ''cats'']) =
     [example_row ''#cats'' 1500, example_row ''#cats'' 2000,
      example_row ''cats'' 1500, example_row ''cats'' 2000]"
    unfolding e1 e3 by simp
  from f1 e4 have r2: "fst (keyword_loop example_api 1000 2 0 [] [] [''dogs'', ''birds'']) = []"
    by blast
  from r1 r2 show ?thesis by (rule conjI)
qed

text \<open>
  C4. Every record that \<open>fetch_for_keyword\<close> returns, for any threshold, cap and upstream
  sequence, carries an integer like count that is at least the threshold; so does every
  record of the aggregate of the keyword loop.
\<close>

theorem accepted_meet_threshold:
  "(\<forall>r \<in> set (rows_of (fetch_for_keyword hv kw t cap)). has_likes t r) \<and>
   (\<forall>r \<in> set (fst (keyword_loop api t cap i [] evs kws)). has_likes t r)"
proof
  have one: "\<forall>r \<in> set (rows_of (fetch_for_keyword hv' k t cap)). has_likes t r" for hv' k
    by (rule rows_of_fetch) (simp add: process_video_row)
  show "\<forall>r \<in> set (rows_of (fetch_for_keyword hv kw t cap)). has_likes t r"
    by (rule one)
  show "\<forall>r \<in> set (fst (keyword_loop api t cap i [] evs kws)). has_likes t r"
    unfolding keyword_loop_rows append_Nil
    by (rule contributions_all) (rule one)
qed

theorem accepted_meet_threshold_witness:
  "rows_of (fetch_for_keyword (example_api 0) ''#cats'' 1000 2) =
     [example_row ''#cats'' 1500, example_row ''#cats'' 2000] \<and>
   fst (keyword_loop example_api 1000 2 0 [] [] [''#cats'', ''dogs'']) =
     [example_row ''#cats'' 1500, example_row ''#cats'' 2000] \<and>
   has_likes 1000 (example_row ''#cats'' 1500) \<and>
   has_likes 1000 (example_row ''#cats'' 2000)"
proof -
  define rows where "rows = rows_of (fetch_for_keyword (example_api 0) ''#cats'' 1000 2)"
  define agg where "agg = fst (keyword_loop example_api 1000 2 0 [] [] [''#cats'', ''dogs''])"
  have v1: "rows = [example_row ''#cats'' 1500, example_row ''#cats'' 2000]"
    by (simp add: rows_def example_defs)
  have v2: "agg = [example_row ''#cats'' 1500, example_row ''#cats'' 2000]"
    by (simp add: agg_def example_defs)
  note t = accepted_meet_threshold [of "example_api 0" "''#cats''" 1000 2 example_api 0 "[]"
      "[''#cats'', ''dogs'']"]
  from t have "\<forall>r \<in> set rows. has_likes 1000 r"
    unfolding rows_def by (rule conjunct1)
  then have r1: "has_likes 1000 (example_row ''#cats'' 1500)"
    unfolding v1 by simp
  from t have "\<forall>r \<in> set agg. has_likes 1000 r"
    unfolding agg_def by (rule conjunct2)
  then have r2: "has_likes 1000 (example_row ''#cats'' 2000)"
    unfolding v2 by simp
  show ?thesis
    using v1 v2 r1 r2 unfolding rows_def agg_def by simp
qed

text \<open>
  C5. A credential configuration in which some channel holds a character that is not a
  separator (so that it holds a token that is non-empty after trimming) yields a non-empty
  list of tokens, each trimmed and non-empty, without duplicates and in the order of first
  appearance; a configuration without such a token fails with \<open>RuntimeError\<close>, the
  configuration error of the program. The same holds of \<open>parse_ms_tokens\<close> on any list of
  raw tokens.
\<close>

theorem token_set:
  "(has_token env \<longrightarrow>
      (\<exists>ts. get_ms_tokens env = Inr ts \<and> ts \<noteq> [] \<and> distinct ts \<and>
         (\<forall>t \<in> set ts. t \<noteq> [] \<and> strip t = t) \<and>
         ts = first_occurrences (filter (\<lambda>t. t \<noteq> []) (map strip (collected env))))) \<and>
   (\<not> has_token env \<longrightarrow> get_ms_tokens env = Inl RuntimeError) \<and>
   ((\<exists>x \<in> set xs. strip x \<noteq> []) \<longrightarrow>
      parse_ms_tokens xs \<noteq> [] \<and> distinct (parse_ms_tokens xs) \<and>
      (\<forall>t \<in> set (parse_ms_tokens xs). t \<noteq> [] \<and> strip t = t) \<and>
      parse_ms_tokens xs = first_occurrences (filter (\<lambda>t. t \<noteq> []) (map strip xs))) \<and>
   ((\<forall>x \<in> set xs. strip x = []) \<longrightarrow> parse_ms_tokens xs = [])"
proof (intro conjI impI)
  assume h: "has_token env"
  then have ne: "parse_ms_tokens (collected env) \<noteq> []"
    by (simp add: has_token_iff parse_ms_tokens_empty_iff)
  show "\<exists>ts. get_ms_tokens env = Inr ts \<and> ts \<noteq> [] \<and> distinct ts \<and>
         (\<forall>t \<in> set ts. t \<noteq> [] \<and> strip t = t) \<and>
         ts = first_occurrences (filter (\<lambda>t. t \<noteq> []) (map strip (collected env)))"
  proof (intro exI conjI)
    show "get_ms_tokens env = Inr (parse_ms_tokens (collected env))"
      using h by (simp only: get_ms_tokens_cases if_True)
    show "parse_ms_tokens (collected env) \<noteq> []" by (rule ne)
    show "distinct (parse_ms_tokens (collected env))" by (rule parse_ms_tokens_distinct)
    show "\<forall>t \<in> set (parse_ms_tokens (collected env)). t \<noteq> [] \<and> strip t = t"
      using parse_ms_tokens_props by (rule conjunct2)
    show "parse_ms_tokens (collected env) =
        first_occurrences (filter (\<lambda>t. t \<noteq> []) (map strip (collected env)))"
      by (rule parse_ms_tokens_first)
  qed
next
  assume "\<not> has_token env"
  then show "get_ms_tokens env = Inl RuntimeError"
    by (simp only: get_ms_tokens_cases if_False)
next
  assume "\<exists>x \<in> set xs. strip x \<noteq> []"
  then show "parse_ms_tokens xs \<noteq> []"
    by (simp add: parse_ms_tokens_empty_iff)
next
  show "distinct (parse_ms_tokens xs)" by (rule parse_ms_tokens_distinct)
next
  show "\<forall>t \<in> set (parse_ms_tokens xs). t \<noteq> [] \<and> strip t = t"
    using parse_ms_tokens_props by (rule conjunct2)
next
  show "parse_ms_tokens xs = first_occurrences (filter (\<lambda>t. t \<noteq> []) (map strip xs))"
    by (rule parse_ms_tokens_first)
next
  assume "\<forall>x \<in> set xs. strip x = []"
  then show "parse_ms_tokens xs = []"
    by (simp add: parse_ms_tokens_empty_iff)
qed

theorem token_set_witness:
  "get_ms_tokens (map_of [(''ms_token'', '' a, b;a ''), (''MS_TOKENS'', ''c b'')])
     = Inr [''a'', ''b'', ''c''] \<and>
   get_ms_tokens (map_of [(''ms_token'', '' ,; '')]) = Inl RuntimeError \<and>
   parse_ms_tokens ['' ab '', ''ab'', '''', ''c''] = [''ab'', ''c''] \<and>
   parse_ms_tokens [''  '', ''''] = []"
proof -
  define env0 :: "string \<rightharpoonup> string"
    where "env0 = map_of [(''ms_token'', '' a, b;a ''), (''MS_TOKENS'', ''c b'')]"
  define env1 :: "string \<rightharpoonup> string" where "env1 = map_of [(''ms_token'', '' ,; '')]"
  define xs0 where "xs0 = ['' ab '', ''ab'', '''', ''c'']"
  define xs1 where "xs1 = [''  '', '''']"
  have h1: "has_token env0"
    unfolding env0_def by code_simp
  have h2: "\<not> has_token env1"
    unfolding env1_def by code_simp
  have h3: "\<exists>x \<in> set xs0. strip x \<noteq> []"
    unfolding xs0_def by code_simp
  have h4: "\<forall>x \<in> set xs1. strip x = []"
    unfolding xs1_def by code_simp
  have v1: "first_occurrences (filter (\<lambda>t. t \<noteq> []) (map strip (collected env0)))
      = [''a'', ''b'', ''c'']"
    unfolding env0_def by code_simp
  have v2: "first_occurrences (filter (\<lambda>t. t \<noteq> []) (map strip xs0)) = [''ab'', ''c'']"
    unfolding xs0_def by code_simp
  note t0 = token_set [of env0 xs0] and t1 = token_set [of env1 xs1]
  from t0 h1 obtain ts where "get_ms_tokens env0 = Inr ts"
    and "ts = first_occurrences (filter (\<lambda>t. t \<noteq> []) (map strip (collected env0)))"
    by blast
  then have r1: "get_ms_tokens env0 = Inr [''a'', ''b'', ''c'']"
    using v1 by simp
  from t1 h2 have r2: "get_ms_tokens env1 = Inl RuntimeError"
    by blast
  from t0 h3 have "parse_ms_tokens xs0 =
      first_occurrences (filter (\<lambda>t. t \<noteq> []) (map strip xs0))"
    by blast
  then have r3: "parse_ms_tokens xs0 = [''ab'', ''c'']"
    using v2 by simp
  from t1 h4 have r4: "parse_ms_tokens xs1 = []"
    by blast
  show ?thesis
    using r1 r2 r3 r4 unfolding env0_def env1_def xs0_def xs1_def by simp
qed

text \<open>
  C6. The keywords read from a table are the trimmed first cells of its rows, in row
  order, without the blank ones and without those that match a header word (keyword,
  palabra, hashtag) up to letter case. A path at which nothing exists fails with
  \<open>FileNotFoundError\<close>, and a table of which no keyword survives fails with
  \<open>RuntimeError\<close>, the configuration error of the program.
\<close>

theorem keyword_source:
  "(fs path = None \<longrightarrow> read_keywords_safe fs path = Inl FileNotFoundError) \<and>
   (fs path = Some rows \<longrightarrow>
      read_keywords rows = filter (\<lambda>k. k \<noteq> [] \<and> \<not> matches_header k) (first_cells rows) \<and>
      (read_keywords rows = [] \<longrightarrow> read_keywords_safe fs path = Inl RuntimeError) \<and>
      (read_keywords rows \<noteq> [] \<longrightarrow> read_keywords_safe fs path = Inr (read_keywords rows)))"
  by (simp add: read_keywords_safe_def read_keywords_eq matches_header_iff)

theorem keyword_source_witness:
  "read_keywords_safe
     (map_of [(''in.csv'', [[''Keyword''], ['' #cats '', ''x''], [], [''''], [''dogs''],
        [''HASHTAG ''], [''#cats'']])]) ''in.csv'' = Inr [''#cats'', ''dogs'', ''#cats''] \<and>
   read_keywords_safe (map_of [(''in.csv'', [[''Keyword'']])]) ''out.csv''
     = Inl FileNotFoundError \<and>
   read_keywords_safe (map_of [(''in.csv'', [[''Keyword''], [''  ''], []])]) ''in.csv''
     = Inl RuntimeError"
proof -
  have v1: "filter (\<lambda>k. k \<noteq> [] \<and> \<not> matches_header k) (first_cells
      [[''Keyword''], ['' #cats '', ''x''], [], [''''], [''dogs''], [''HASHTAG ''], [''#cats'']])
      = [''#cats'', ''dogs'', ''#cats'']"
    by code_simp
  have v2: "filter (\<lambda>k. k \<noteq> [] \<and> \<not> matches_header k) (first_cells
      [[''Keyword''], [''  ''], []]) = []"
    by code_simp
  show ?thesis
    using keyword_source [of "map_of [(''in.csv'', [[''Keyword''], ['' #cats '', ''x''], [],
          [''''], [''dogs''], [''HASHTAG ''], [''#cats'']])]" "''in.csv''"
        "[[''Keyword''], ['' #cats '', ''x''], [], [''''], [''dogs''], [''HASHTAG ''], [''#cats'']]"]
      keyword_source [of "map_of [(''in.csv'', [[''Keyword'']])]" "''out.csv''" "[]"]
      keyword_source [of "map_of [(''in.csv'', [[''Keyword''], [''  ''], []])]" "''in.csv''"
        "[[''Keyword''], [''  ''], []]"]
      v1 v2
    by auto
qed

text \<open>
  C7. An aggregate is a list of records that carry the ten declared fields in the
  declared order, as every aggregate of the keyword loop does. For every aggregate, the
  empty one included, the file is the header of the ten declared column names followed
  by one row of values per record in aggregate order, and the count of records is
  returned; the empty aggregate gives the header alone. (The header of a non-empty input
  is read off its first record, \<open>write_rows_header\<close>; for an aggregate that is the
  declared list.)
\<close>

theorem sink_writes_header_and_rows:
  "((\<forall>r \<in> set rows. record_keys r) \<longrightarrow>
      write_rows rows =
        (map PStr default_fieldnames # map (map snd) rows, Inr (length rows))) \<and>
   write_rows [] = ([map PStr default_fieldnames], Inr 0) \<and>
   (\<forall>r \<in> set (fst (keyword_loop api t cap i [] evs kws)). record_keys r) \<and>
   write_rows (fst (keyword_loop api t cap i [] evs kws)) =
     (map PStr default_fieldnames # map (map snd) (fst (keyword_loop api t cap i [] evs kws)),
      Inr (length (fst (keyword_loop api t cap i [] evs kws))))"
proof (intro conjI impI)
  assume "\<forall>r \<in> set rows. record_keys r"
  then show "write_rows rows =
      (map PStr default_fieldnames # map (map snd) rows, Inr (length rows))"
    by (rule write_rows_records)
next
  show "write_rows [] = ([map PStr default_fieldnames], Inr 0)"
    using write_rows_records [of "[]"] by simp
next
  show "\<forall>r \<in> set (fst (keyword_loop api t cap i [] evs kws)). record_keys r"
    by (rule aggregate_records)
next
  show "write_rows (fst (keyword_loop api t cap i [] evs kws)) =
     (map PStr default_fieldnames # map (map snd) (fst (keyword_loop api t cap i [] evs kws)),
      Inr (length (fst (keyword_loop api t cap i [] evs kws))))"
    by (rule write_rows_records) (rule aggregate_records)
qed

theorem sink_writes_header_and_rows_witness:
  "write_rows [example_row ''cats'' 1500, example_row ''cats'' 2000] =
     (map PStr default_fieldnames #
        [map snd (example_row ''cats'' 1500), map snd (example_row ''cats'' 2000)], Inr 2) \<and>
   write_rows [] = ([map PStr default_fieldnames], Inr 0) \<and>
   record_keys (example_row ''#cats'' 1500) \<and>
   write_rows (fst (keyword_loop example_api 1000 2 0 [] [] [''#cats'', ''dogs''])) =
     (map PStr default_fieldnames #
        [map snd (example_row ''#cats'' 1500), map snd (example_row ''#cats'' 2000)], Inr 2)"
proof -
  define rows where "rows = [example_row ''cats'' 1500, example_row ''cats'' 2000]"
  define agg where "agg = fst (keyword_loop example_api 1000 2 0 [] [] [''#cats'', ''dogs''])"
  have h: "\<forall>r \<in> set rows. record_keys r"
    by (simp add: rows_def record_keys_def example_row_def default_fieldnames_def)
  have v: "agg = [example_row ''#cats'' 1500, example_row ''#cats'' 2000]"
    by (simp add: agg_def example_defs)
  note s = sink_writes_header_and_rows [of rows example_api 1000 2 0 "[]"
      "[''#cats'', ''dogs'']"]
  from s h have r1: "write_rows rows =
      (map PStr default_fieldnames # map (map snd) rows, Inr (length rows))"
    by blast
  from s have r2: "write_rows [] = ([map PStr default_fieldnames], Inr 0)"
    by blast
  from s have "\<forall>r \<in> set agg. record_keys r"
    unfolding agg_def by blast
  then have r3: "record_keys (example_row ''#cats'' 1500)"
    unfolding v by simp
  from s have "write_rows agg =
      (map PStr default_fieldnames # map (map snd) agg, Inr (length agg))"
    unfolding agg_def by blast
  then have r4: "write_rows agg =
     (map PStr default_fieldnames #
        [map snd (example_row ''#cats'' 1500), map snd (example_row ''#cats'' 2000)], Inr 2)"
    unfolding v by simp
  show ?thesis
    using r1 r2 r3 r4 unfolding rows_def agg_def by simp
qed

text \<open>
  C8. When the credentials are missing, or the credentials are there and the keyword
  input is missing or without keywords, the run ends with that error and without any
  event: no session is opened, nothing is fetched, nothing is written. A run with an
  event has passed both validations, and a run that passes both starts by opening the
  sessions.
\<close>

theorem validation_before_sessions:
  "(get_ms_tokens (environ w) = Inl e \<longrightarrow> main_async w a = ([], Inl e)) \<and>
   (\<not> isl (get_ms_tokens (environ w)) \<and>
    read_keywords_safe (files w) (input_path a) = Inl e \<longrightarrow>
      main_async w a = ([], Inl e)) \<and>
   (fst (main_async w a) \<noteq> [] \<longrightarrow>
      \<not> isl (get_ms_tokens (environ w)) \<and>
      \<not> isl (read_keywords_safe (files w) (input_path a))) \<and>
   (\<not> isl (get_ms_tokens (environ w)) \<and>
    \<not> isl (read_keywords_safe (files w) (input_path a)) \<longrightarrow>
      fst (main_async w a) \<noteq> [] \<and>
      (\<exists>ts n s b. hd (fst (main_async w a)) = CreateSessions ts n s b))"
proof (intro conjI impI)
  assume "get_ms_tokens (environ w) = Inl e"
  then show "main_async w a = ([], Inl e)" by (rule main_async_no_tokens)
next
  assume "\<not> isl (get_ms_tokens (environ w)) \<and>
    read_keywords_safe (files w) (input_path a) = Inl e"
  then show "main_async w a = ([], Inl e)" by (simp add: main_async_no_keywords)
next
  assume ne: "fst (main_async w a) \<noteq> []"
  show "\<not> isl (get_ms_tokens (environ w))"
  proof
    assume "isl (get_ms_tokens (environ w))"
    then obtain x where "get_ms_tokens (environ w) = Inl x"
      by (cases "get_ms_tokens (environ w)") simp_all
    then have "main_async w a = ([], Inl x)" by (rule main_async_no_tokens)
    then show False using ne by simp
  qed
  then show "\<not> isl (read_keywords_safe (files w) (input_path a))"
  proof (rule contrapos_nn)
    assume "isl (read_keywords_safe (files w) (input_path a))"
    then obtain x where x: "read_keywords_safe (files w) (input_path a) = Inl x"
      by (cases "read_keywords_safe (files w) (input_path a)") simp_all
    show "isl (get_ms_tokens (environ w))"
    proof (rule ccontr)
      assume "\<not> isl (get_ms_tokens (environ w))"
      then have "main_async w a = ([], Inl x)" using x by (rule main_async_no_keywords)
      then show False using ne by simp
    qed
  qed
next
  assume h: "\<not> isl (get_ms_tokens (environ w)) \<and>
    \<not> isl (read_keywords_safe (files w) (input_path a))"
  then obtain ts ks where "get_ms_tokens (environ w) = Inr ts"
    "read_keywords_safe (files w) (input_path a) = Inr ks"
    by (cases "get_ms_tokens (environ w)"; cases "read_keywords_safe (files w) (input_path a)")
      simp_all
  from main_async_opens [OF this] obtain rest where
    r: "fst (main_async w a) = CreateSessions ts (length ts) 3 (browser (environ w)) # rest"
    by blast
  show "fst (main_async w a) \<noteq> []" using r by simp
  show "\<exists>ts n s b. hd (fst (main_async w a)) = CreateSessions ts n s b" using r by simp
qed

theorem validation_before_sessions_witness:
  "main_async (example_world [] [(''in.csv'', [[''#cats'']])]) example_args =
     ([], Inl RuntimeError) \<and>
   main_async (example_world [(''ms_token'', ''tok1'')] []) example_args =
     ([], Inl FileNotFoundError) \<and>
   main_async (example_world [(''ms_token'', ''tok1'')] [(''in.csv'', [[''keyword'']])])
     example_args = ([], Inl RuntimeError) \<and>
   main_async (example_world [(''ms_token'', ''tok1'')]
       [(''in.csv'', [[''keyword''], [''#cats''], [''dogs'']])]) example_args =
     ([CreateSessions [''tok1''] 1 3 ''chromium'', FetchForKeyword ''#cats'',
       FetchForKeyword ''dogs'',
       WriteRows ''out.csv''
         (map PStr default_fieldnames #
            [map snd (example_row ''#cats'' 1500), map snd (example_row ''#cats'' 2000)])],
      Inr 2) \<and>
   fst (main_async (example_world [(''ms_token'', ''tok1'')]
       [(''in.csv'', [[''keyword''], [''#cats''], [''dogs'']])]) example_args) \<noteq> []"
proof -
  have e1: "get_ms_tokens (map_of []) = Inl RuntimeError"
    by code_simp
  have e2: "get_ms_tokens (map_of [(''ms_token'', ''tok1'')]) = Inr [''tok1'']"
    by code_simp
  have f1: "read_keywords_safe (map_of []) ''in.csv'' = Inl FileNotFoundError"
    by (simp add: read_keywords_safe_def)
  have f2: "read_keywords_safe (map_of [(''in.csv'', [[''keyword'']])]) ''in.csv'' =
      Inl RuntimeError"
    by code_simp
  have f3: "read_keywords_safe (map_of [(''in.csv'', [[''keyword''], [''#cats''], [''dogs'']])])
      ''in.csv'' = Inr [''#cats'', ''dogs'']"
    by code_simp
  define w1 where "w1 = example_world [] [(''in.csv'', [[''#cats'']])]"
  define w2 where "w2 = example_world [(''ms_token'', ''tok1'')] []"
  define w3 where "w3 = example_world [(''ms_token'', ''tok1'')] [(''in.csv'', [[''keyword'']])]"
  have g1: "get_ms_tokens (environ w1) = Inl RuntimeError"
    using e1 by (simp add: w1_def example_world_def)
  have g2: "\<not> isl (get_ms_tokens (environ w2)) \<and>
      read_keywords_safe (files w2) (input_path example_args) = Inl FileNotFoundError"
    using e2 f1 by (simp add: w2_def example_world_def example_args_def)
  have g3: "\<not> isl (get_ms_tokens (environ w3)) \<and>
      read_keywords_safe (files w3) (input_path example_args) = Inl RuntimeError"
    using e2 f2 by (simp add: w3_def example_world_def example_args_def)
  from validation_before_sessions [of w1 RuntimeError example_args] g1
  have r1: "main_async w1 example_args = ([], Inl RuntimeError)" by blast
  from validation_before_sessions [of w2 FileNotFoundError example_args] g2
  have r2: "main_async w2 example_args = ([], Inl FileNotFoundError)" by blast
  from validation_before_sessions [of w3 RuntimeError example_args] g3
  have r3: "main_async w3 example_args = ([], Inl RuntimeError)" by blast
  have r4: "main_async (example_world [(''ms_token'', ''tok1'')]
       [(''in.csv'', [[''keyword''], [''#cats''], [''dogs'']])]) example_args =
     ([CreateSessions [''tok1''] 1 3 ''chromium'', FetchForKeyword ''#cats'',
       FetchForKeyword ''dogs'',
       WriteRows ''out.csv''
         (map PStr default_fieldnames #
            [map snd (example_row ''#cats'' 1500), map snd (example_row ''#cats'' 2000)])],
      Inr 2)"
    using e2 f3
    by (simp add: main_async_def ensure_ms_tokens_def example_world_def example_args_def
        browser_def example_defs write_rows_def dict_to_list_def default_fieldnames_def)
  define w4 where "w4 = example_world [(''ms_token'', ''tok1'')]
      [(''in.csv'', [[''keyword''], [''#cats''], [''dogs'']])]"
  have g4: "\<not> isl (get_ms_tokens (environ w4)) \<and>
      \<not> isl (read_keywords_safe (files w4) (input_path example_args))"
    using e2 f3 by (simp add: w4_def example_world_def example_args_def)
  from validation_before_sessions [of w4 RuntimeError example_args] g4
  have r5: "fst (main_async w4 example_args) \<noteq> []" by blast
  show ?thesis
    using r1 r2 r3 r4 r5 unfolding w1_def w2_def w3_def w4_def by simp
qed



text \<open>
  C10. Token normalisation is idempotent: parsing the output of \<open>parse_ms_tokens\<close> again
  changes nothing, and every token of the output is non-empty and equal to its own trim.
\<close>

theorem parse_ms_tokens_idempotent:
  "parse_ms_tokens (parse_ms_tokens xs) = parse_ms_tokens xs \<and>
   (\<forall>t \<in> set (parse_ms_tokens xs). t \<noteq> [] \<and> strip t = t)"
  using parse_ms_tokens_fixed [of "parse_ms_tokens xs"]
  by (simp add: parse_ms_tokens_distinct parse_ms_tokens_trimmed)

theorem parse_ms_tokens_idempotent_witness:
  "parse_ms_tokens ['' ab '', ''ab'', '''', ''c''] = [''ab'', ''c''] \<and>
   parse_ms_tokens (parse_ms_tokens ['' ab '', ''ab'', '''', ''c'']) = [''ab'', ''c''] \<and>
   strip ''ab'' = ''ab'' \<and> strip ''c'' = ''c''"
  using parse_ms_tokens_idempotent [of "['' ab '', ''ab'', '''', ''c'']"]
  by (simp add: parse_ms_tokens_def strip_def isspace_def)

end
